theory Spec2Isabelle
  imports Complex_Main "HOL-Library.Product_Lexorder"
begin

section \<open>Shared vocabulary\<close>

text \<open>
  Clock readings (\<^verbatim>\<open>time.time()\<close>) and sleep durations are Python floats; they are
  modelled as real numbers. Every function below that reads the clock takes the reading
  as a parameter \<open>now\<close>.

  What a coroutine does besides changing its object's attributes is recorded as a list
  of effects, oldest first: going to sleep (\<^verbatim>\<open>time.sleep\<close>, \<^verbatim>\<open>asyncio.sleep\<close>), writing the
  progress file (\<^verbatim>\<open>save_progress\<close> in comment.py), and leaving the process
  (\<^verbatim>\<open>sys.exit\<close>).
\<close>

datatype effect = Sleep real | SaveProgress | SysExit int

section \<open>media\_platform/weibo/core.py: the handlers of \<^verbatim>\<open>WeiboCrawler.get_note_comments\<close>\<close>

text \<open>
  The three counters are instance attributes that exist only once a handler has set them
  (\<^verbatim>\<open>getattr(self, 'timeout_count', 0)\<close>, \<^verbatim>\<open>hasattr(self, 'success_after_timeout')\<close>), so
  each one is an optional integer: \<open>None\<close> is "attribute absent".
\<close>

record crawler_attrs =
  timeout_count :: "int option"
  success_after_timeout :: "int option"
  block_count :: "int option"

definition fresh_crawler :: crawler_attrs where
  "fresh_crawler = \<lparr>timeout_count = None, success_after_timeout = None, block_count = None\<rparr>"

text \<open>
  How the call \<^verbatim>\<open>wb_client.get_note_all_comments\<close> in the \<^verbatim>\<open>try\<close> body ends, by the
  \<^verbatim>\<open>except\<close> clause that catches it, in the order of the clauses. For the last clause
  (\<^verbatim>\<open>except Exception\<close>) the flag is the value the handler computes for \<^verbatim>\<open>is_block\<close>:
  whether one of the \<^verbatim>\<open>block_indicators\<close> occurs in the lower-cased message.
\<close>

datatype fetch_outcome =
    Fetched
  | DataFetchError
  | NetworkError
  | OtherException bool

definition getattr0 :: "int option \<Rightarrow> int" where
  "getattr0 a = (case a of None \<Rightarrow> 0 | Some v \<Rightarrow> v)"

text \<open>
  One call of \<^verbatim>\<open>get_note_comments\<close>: the new attributes and the effects in order. A
  call that leaves through \<^verbatim>\<open>sys.exit(1)\<close> has \<open>SysExit 1\<close> as its last effect.
\<close>

definition on_network_error :: "crawler_attrs \<Rightarrow> crawler_attrs \<times> effect list" where
  "on_network_error s =
    (let tc = getattr0 (timeout_count s) + 1;
         retry_seconds = min (10 * tc) 120;
         (tc1, saf1) =
           (case success_after_timeout s of
              Some k \<Rightarrow> (if k + 1 \<ge> 3 then 0 else tc, k + 1)
            | None \<Rightarrow> (tc, 0))
     in if tc1 \<ge> 15
        then (s\<lparr>timeout_count := Some (tc1 div 2), success_after_timeout := Some saf1\<rparr>,
              [Sleep (of_int retry_seconds), Sleep 300])
        else (s\<lparr>timeout_count := Some tc1, success_after_timeout := Some saf1\<rparr>,
              [Sleep (of_int retry_seconds)]))"

definition on_other_exception :: "crawler_attrs \<Rightarrow> bool \<Rightarrow> crawler_attrs \<times> effect list" where
  "on_other_exception s is_block =
    (if is_block then
       (let bc = getattr0 (block_count s) + 1
        in if bc \<ge> 6 then (s\<lparr>block_count := Some bc\<rparr>, [SysExit 1])
           else (s\<lparr>block_count := Some bc\<rparr>, [Sleep 60]))
     else (s, [Sleep 2]))"

fun get_note_comments :: "crawler_attrs \<Rightarrow> fetch_outcome \<Rightarrow> crawler_attrs \<times> effect list" where
  "get_note_comments s Fetched = (s, [])"
| "get_note_comments s DataFetchError = (s, [Sleep 5])"
| "get_note_comments s NetworkError = on_network_error s"
| "get_note_comments s (OtherException is_block) = on_other_exception s is_block"

text \<open>
  \<^verbatim>\<open>batch_get_notes_comments\<close> starts one \<^verbatim>\<open>get_note_comments\<close> per note id. The handlers
  sleep with the blocking \<^verbatim>\<open>time.sleep\<close> and the \<^verbatim>\<open>try\<close> body is the only suspension
  point, so the handlers run one after the other; the list gives the outcomes in the
  order in which they are handled. \<^verbatim>\<open>sys.exit\<close> raises \<^verbatim>\<open>SystemExit\<close>, which no handler
  catches: nothing after it is handled. The result is the final attributes, the effects
  of the whole run, and the number of calls that were handled.
\<close>

fun is_exit :: "effect \<Rightarrow> bool" where
  "is_exit (SysExit c) = True"
| "is_exit e = False"

fun batch_get_notes_comments ::
  "crawler_attrs \<Rightarrow> fetch_outcome list \<Rightarrow> crawler_attrs \<times> effect list \<times> nat" where
  "batch_get_notes_comments s [] = (s, [], 0)"
| "batch_get_notes_comments s (x # xs) =
    (case get_note_comments s x of (s1, es) \<Rightarrow>
       if list_ex is_exit es then (s1, es, 1)
       else (case batch_get_notes_comments s1 xs of (s2, es2, n) \<Rightarrow> (s2, es @ es2, Suc n)))"

text \<open>The number of block events among the outcomes of a run.\<close>

definition blocks :: "fetch_outcome list \<Rightarrow> nat" where
  "blocks xs = length (filter (\<lambda>x. x = OtherException True) xs)"

text \<open>
  The states of the two timeout attributes that the handlers can produce from a crawler
  on which neither is set.
\<close>

definition timeout_inv :: "crawler_attrs \<Rightarrow> bool" where
  "timeout_inv s =
    (case success_after_timeout s of
       None \<Rightarrow> timeout_count s = None
     | Some k \<Rightarrow>
         (case timeout_count s of
            None \<Rightarrow> False
          | Some t \<Rightarrow> 0 \<le> k \<and> 0 \<le> t \<and> t \<le> 3 \<and> t \<le> k + 1))"

section \<open>multiaccountweiboscraper.py: accounts, rotation, retry of a comment fetch\<close>

text \<open>
  \<^verbatim>\<open>random.uniform(a, b)\<close> is \<^verbatim>\<open>a + (b - a) * random()\<close>; the draw \<open>r\<close> of \<^verbatim>\<open>random()\<close> is a
  parameter, between 0 and 1.
\<close>

definition uniform :: "real \<Rightarrow> real \<Rightarrow> real \<Rightarrow> real" where
  "uniform a b r = a + (b - a) * r"

text \<open>
  Python's \<^verbatim>\<open>sub in s\<close> on strings.
\<close>

fun contains :: "string \<Rightarrow> string \<Rightarrow> bool" where
  "contains sub [] = (sub = [])"
| "contains sub (c # cs) = (take (length sub) (c # cs) = sub \<or> contains sub cs)"

text \<open>
  \<^verbatim>\<open>WeiboAccount\<close>: the fields the pool reads and writes. The browser context, page and
  client are handles of the login collaborator and are left out.
\<close>

record weibo_account =
  username :: string
  is_logged_in :: bool
  last_used_time :: real
  request_count :: int
  error_count :: int
  cooldown_until :: real

definition WeiboAccount :: "string \<Rightarrow> weibo_account" where
  "WeiboAccount name =
     \<lparr>username = name, is_logged_in = False, last_used_time = 0, request_count = 0,
      error_count = 0, cooldown_until = 0\<rparr>"

definition is_in_cooldown :: "real \<Rightarrow> weibo_account \<Rightarrow> bool" where
  "is_in_cooldown now acc = (now < cooldown_until acc)"

definition set_cooldown :: "real \<Rightarrow> real \<Rightarrow> weibo_account \<Rightarrow> weibo_account" where
  "set_cooldown now minutes acc = acc\<lparr>cooldown_until := now + minutes * 60\<rparr>"

text \<open>
  \<^verbatim>\<open>CommentScrapingStats\<close> with \<^verbatim>\<open>add_success\<close> and \<^verbatim>\<open>add_failure\<close>.
\<close>

record comment_scraping_stats =
  total_posts_processed :: int
  successful_posts :: int
  failed_posts :: int
  total_comments_scraped :: int
  empty_posts :: int
  rate_limited_posts :: int

definition CommentScrapingStats :: comment_scraping_stats where
  "CommentScrapingStats =
     \<lparr>total_posts_processed = 0, successful_posts = 0, failed_posts = 0,
      total_comments_scraped = 0, empty_posts = 0, rate_limited_posts = 0\<rparr>"

definition add_success :: "int \<Rightarrow> comment_scraping_stats \<Rightarrow> comment_scraping_stats" where
  "add_success comment_count st =
     st\<lparr>successful_posts := successful_posts st + 1,
        total_posts_processed := total_posts_processed st + 1,
        total_comments_scraped := total_comments_scraped st + comment_count\<rparr>"

definition add_failure :: "string option \<Rightarrow> comment_scraping_stats \<Rightarrow> comment_scraping_stats" where
  "add_failure error_type st =
     (let st1 = st\<lparr>failed_posts := failed_posts st + 1,
                    total_posts_processed := total_posts_processed st + 1\<rparr>
      in if error_type = Some ''empty'' then st1\<lparr>empty_posts := empty_posts st1 + 1\<rparr>
         else if error_type = Some ''rate_limited''
              then st1\<lparr>rate_limited_posts := rate_limited_posts st1 + 1\<rparr>
         else st1)"

text \<open>
  The settings of \<^verbatim>\<open>EnhancedWeiboScraper.__init__\<close> that the retry loop reads.
\<close>

definition max_retries :: int where "max_retries = 3"
definition retry_delay :: real where "retry_delay = 2"
definition error_threshold :: int where "error_threshold = 5"

subsection \<open>\<^verbatim>\<open>rotate_account\<close>\<close>

text \<open>
  The scraper's pool: the accounts in list order and the state of \<^verbatim>\<open>account_lock\<close>, an
  \<^verbatim>\<open>asyncio.Lock\<close> (\<open>True\<close>: held). An account object is referred to by its position in
  \<^verbatim>\<open>self.accounts\<close>; the list is never reordered.
\<close>

record scraper =
  accounts :: "weibo_account list"
  account_lock :: bool

datatype rotate_error = NoActiveAccounts

definition active_accounts :: "real \<Rightarrow> weibo_account list \<Rightarrow> nat list" where
  "active_accounts now accs =
     filter (\<lambda>i. is_logged_in (accs ! i) \<and> \<not> is_in_cooldown now (accs ! i)) [0..<length accs]"

definition cooldown_accounts :: "real \<Rightarrow> weibo_account list \<Rightarrow> nat list" where
  "cooldown_accounts now accs =
     filter (\<lambda>i. is_logged_in (accs ! i) \<and> is_in_cooldown now (accs ! i)) [0..<length accs]"

text \<open>The sort key of the selection; Python compares the tuples lexicographically.\<close>

definition selection_key :: "weibo_account \<Rightarrow> int \<times> real \<times> int" where
  "selection_key acc = (error_count acc, last_used_time acc, request_count acc)"

text \<open>
  The time the coroutine sleeps when every logged-in account is cooling down:
  \<^verbatim>\<open>wait_time + 1\<close>, where \<^verbatim>\<open>wait_time\<close> is what is left of the cooldown that ends first.
  \<^verbatim>\<open>list.sort\<close> is stable, as \<open>sort_key\<close> is.
\<close>

definition rotate_wait_time :: "real \<Rightarrow> weibo_account list \<Rightarrow> real" where
  "rotate_wait_time now accs =
     (let next_available = hd (sort_key (\<lambda>i. cooldown_until (accs ! i)) (cooldown_accounts now accs));
          wait_time = max 0 (cooldown_until (accs ! next_available) - now)
      in wait_time + 1)"

text \<open>
  \<^verbatim>\<open>rotate_account\<close>, as one task runs it. \<open>stamp\<close> stands for
  \<^verbatim>\<open>utils.get_current_timestamp\<close> of tools/utils, taken as a function of the clock
  reading. The result is \<open>None\<close> when the coroutine never returns.

  The whole body runs inside \<^verbatim>\<open>async with self.account_lock\<close>. An \<^verbatim>\<open>asyncio.Lock\<close> is not
  reentrant: \<^verbatim>\<open>acquire\<close> on a held lock waits until the holder releases it. Within one
  task the coroutine finds the lock held only when the holder is the frame that called it
  (the recursive \<^verbatim>\<open>return await self.rotate_account()\<close> is inside the \<^verbatim>\<open>with\<close> block); that
  frame does not go on before this call returns, so the wait never ends. A call on a free
  lock takes it and gives it back on every way out of the block.
\<close>

function rotate_account ::
  "(real \<Rightarrow> real) \<Rightarrow> real \<Rightarrow> scraper \<Rightarrow> ((rotate_error + nat) \<times> scraper) option" where
  "rotate_account stamp now s =
    (if account_lock s then None
     else
       (let accs = accounts s; active = active_accounts now accs in
        if active = [] then
          (if cooldown_accounts now accs \<noteq> [] then
             (case rotate_account stamp (now + rotate_wait_time now accs)
                     (s\<lparr>account_lock := True\<rparr>) of
                None \<Rightarrow> None
              | Some (r, s') \<Rightarrow> Some (r, s'\<lparr>account_lock := False\<rparr>))
           else Some (Inl NoActiveAccounts, s))
        else
          (let i = hd (sort_key (\<lambda>i. selection_key (accs ! i)) active);
               account = (accs ! i)\<lparr>last_used_time := stamp now,
                                     request_count := request_count (accs ! i) + 1\<rparr>
           in Some (Inr i, s\<lparr>accounts := accs[i := account]\<rparr>))))"
  by pat_completeness auto
termination
  by (relation "measure (\<lambda>(stamp, now, s). if account_lock s then 0 else 1)") auto

subsection \<open>The failure handlers of \<^verbatim>\<open>batch_get_comments.fetch_comments\<close>\<close>

text \<open>
  The inner handler (\<^verbatim>\<open>except Exception as batch_error\<close>) classifies the message, updates
  the account that made the request and the statistics, and raises again; the result
  carries the message of the exception it raises.
\<close>

definition on_batch_error ::
  "real \<Rightarrow> int \<Rightarrow> string \<Rightarrow> weibo_account \<Rightarrow> comment_scraping_stats \<Rightarrow>
   weibo_account \<times> comment_scraping_stats \<times> string" where
  "on_batch_error now retries error_msg account st =
    (if contains ''Expecting value'' error_msg \<or> error_msg = '''' then
       (account,
        if retries = max_retries then add_failure (Some ''empty'') st else st,
        ''Empty response, possibly no comments or rate limited'')
     else if contains ''412'' error_msg \<or> contains ''403'' error_msg then
       (set_cooldown now 20 (account\<lparr>error_count := error_count account + 1\<rparr>),
        add_failure (Some ''rate_limited'') st,
        ''Rate limited (412 status code)'')
     else
       (let acc1 = account\<lparr>error_count := error_count account + 1\<rparr>
        in (if error_count acc1 \<ge> error_threshold then set_cooldown now 15 acc1 else acc1,
            st, error_msg)))"

text \<open>
  The outer handler (\<^verbatim>\<open>except Exception as e\<close>) counts the retry and the error, and either
  sleeps \<^verbatim>\<open>backoff + random.uniform(0, backoff * 0.5)\<close> and doubles \<^verbatim>\<open>backoff\<close>, or gives
  up and returns the empty list.
\<close>

definition sleep_time :: "real \<Rightarrow> real \<Rightarrow> real" where
  "sleep_time backoff r = backoff + uniform 0 (backoff * 0.5) r"

datatype retry_decision = RetryAfter real real | GiveUp

definition on_attempt_failure ::
  "bool \<Rightarrow> real \<Rightarrow> int \<Rightarrow> real \<Rightarrow> weibo_account \<Rightarrow> comment_scraping_stats \<Rightarrow>
   int \<times> weibo_account \<times> comment_scraping_stats \<times> retry_decision" where
  "on_attempt_failure with_retry r retries backoff account st =
    (let retries1 = retries + 1;
         acc1 = account\<lparr>error_count := error_count account + 1\<rparr>
     in if retries1 \<le> max_retries \<and> with_retry
        then (retries1, acc1, st, RetryAfter (sleep_time backoff r) (backoff * 2))
        else (retries1, acc1, add_failure None st, GiveUp))"

text \<open>
  A request that fails inside the inner \<^verbatim>\<open>try\<close> goes through both handlers.
\<close>

definition release_failed ::
  "bool \<Rightarrow> real \<Rightarrow> real \<Rightarrow> int \<Rightarrow> real \<Rightarrow> string \<Rightarrow> weibo_account \<Rightarrow> comment_scraping_stats \<Rightarrow>
   int \<times> weibo_account \<times> comment_scraping_stats \<times> retry_decision" where
  "release_failed with_retry r now retries backoff error_msg account st =
    (case on_batch_error now retries error_msg account st of
       (acc1, st1, raised) \<Rightarrow> on_attempt_failure with_retry r retries backoff acc1 st1)"

text \<open>
  The value of \<^verbatim>\<open>backoff\<close> at the \<open>k\<close>-th failed attempt (counting from 0): it starts at
  \<^verbatim>\<open>self.retry_delay\<close> and is doubled after each sleep.
\<close>

fun backoff_at :: "nat \<Rightarrow> real" where
  "backoff_at 0 = retry_delay"
| "backoff_at (Suc k) = backoff_at k * 2"

section \<open>comment.py: \<^verbatim>\<open>WeiboCommentScraper\<close>\<close>

subsection \<open>The delay before a retry in \<^verbatim>\<open>_fetch_comments_with_retry\<close>\<close>

text \<open>
  \<^verbatim>\<open>backoff_delay = min(self.max_delay, self.min_delay * (2 ** retry))\<close> and
  \<^verbatim>\<open>jitter_delay = backoff_delay * (1 + random.uniform(-self.jitter, self.jitter))\<close>, slept
  before attempt \<open>retry > 0\<close>. The settings are parameters: \<^verbatim>\<open>__init__\<close> sets them to 3,
  12 and 0.5, and \<^verbatim>\<open>retry_failed_posts\<close> scales the first two for the time of a round.
\<close>

definition backoff_delay :: "real \<Rightarrow> real \<Rightarrow> nat \<Rightarrow> real" where
  "backoff_delay min_delay max_delay retry = min max_delay (min_delay * 2 ^ retry)"

definition jitter_delay :: "real \<Rightarrow> real \<Rightarrow> real \<Rightarrow> nat \<Rightarrow> real \<Rightarrow> real" where
  "jitter_delay jitter min_delay max_delay retry r =
     backoff_delay min_delay max_delay retry * (1 + uniform (- jitter) jitter r)"

subsection \<open>The progress sets in \<^verbatim>\<open>scrape_comments_for_post_ids\<close>\<close>

text \<open>
  The attributes of a \<^verbatim>\<open>WeiboCommentScraper\<close>: the two sets of post ids, the delay
  settings, and the \<^verbatim>\<open>stats\<close> dictionary, a counter per key. \<^verbatim>\<open>__init__\<close> starts with
  empty sets and zero counters; \<^verbatim>\<open>load_progress\<close> replaces sets and counters by what an
  earlier run saved.
\<close>

record comment_scraper =
  success_post_ids :: "string set"
  failed_post_ids :: "string set"
  min_delay :: real
  max_delay :: real
  jitter :: real
  stats :: "string \<Rightarrow> int"

definition WeiboCommentScraper :: comment_scraper where
  "WeiboCommentScraper =
     \<lparr>success_post_ids = {}, failed_post_ids = {}, min_delay = 3, max_delay = 12,
      jitter = 1/2, stats = (\<lambda>key. 0)\<rparr>"

definition bump :: "string \<Rightarrow> int \<Rightarrow> (string \<Rightarrow> int) \<Rightarrow> (string \<Rightarrow> int)" where
  "bump key n st = st(key := st key + n)"

text \<open>
  What the \<^verbatim>\<open>try\<close> body of \<^verbatim>\<open>process_batch\<close> does for one post when it is not skipped: the
  pacing sleep, the rotation of account and proxy and \<^verbatim>\<open>_fetch_comments_with_retry\<close> either
  yield a list of comments (of the given length) or raise.
\<close>

datatype post_outcome = Comments nat | Raised string

text \<open>
  One round of the \<^verbatim>\<open>for post_id in post_id_batch\<close> loop. A submitted post is a pair of
  its id and the outcome its \<^verbatim>\<open>try\<close> body has if the post is attempted.
\<close>

definition process_post :: "comment_scraper \<Rightarrow> string \<times> post_outcome \<Rightarrow> comment_scraper" where
  "process_post s = (\<lambda>(post_id, outcome).
     if post_id \<in> success_post_ids s then s
     else
       (case outcome of
          Comments n \<Rightarrow>
            (let st1 = bump ''total_posts_processed'' 1 (stats s)
             in if n \<noteq> 0
                then s\<lparr>stats := bump ''successful_posts'' 1
                                   (bump ''total_comments_scraped'' (int n) st1),
                       success_post_ids := insert post_id (success_post_ids s)\<rparr>
                else s\<lparr>stats := bump ''empty_comment_posts'' 1 st1,
                       success_post_ids := insert post_id (success_post_ids s)\<rparr>)
        | Raised error_message \<Rightarrow>
            s\<lparr>stats := bump ''failed_posts'' 1 (stats s),
              failed_post_ids := insert post_id (failed_post_ids s)\<rparr>))"

text \<open>
  \<^verbatim>\<open>process_batch\<close>: the posts of the batch in order, then the count of completed batches
  and the periodic \<^verbatim>\<open>save_progress\<close>. The batches are started together and take turns at
  their suspension points; the model runs them in list order.
\<close>

definition process_batch ::
  "nat \<Rightarrow> comment_scraper \<times> nat \<times> effect list \<Rightarrow> (string \<times> post_outcome) list \<Rightarrow>
   comment_scraper \<times> nat \<times> effect list" where
  "process_batch total_batches = (\<lambda>(s, completed_batches, es) post_id_batch.
     (let s1 = foldl process_post s post_id_batch;
          completed = completed_batches + 1
      in (s1, completed,
          es @ (if completed mod 5 = 0 \<or> completed = total_batches then [SaveProgress]
                else []))))"

text \<open>
  \<^verbatim>\<open>[post_ids[i:i+batch_size] for i in range(0, len(post_ids), batch_size)]\<close> for a positive
  \<^verbatim>\<open>batch_size\<close>.
\<close>

function batches_of :: "nat \<Rightarrow> 'a list \<Rightarrow> 'a list list" where
  "batches_of n xs = (if n = 0 \<or> xs = [] then [] else take n xs # batches_of n (drop n xs))"
  by pat_completeness auto
termination
  by (relation "measure (\<lambda>(n, xs). length xs)") auto

declare batches_of.simps [simp del]

datatype py_error = ValueError

text \<open>
  \<^verbatim>\<open>scrape_comments_for_post_ids\<close>: the scraper after the call and the effects, or the
  \<^verbatim>\<open>ValueError\<close> of \<^verbatim>\<open>range\<close> for a step of 0. A negative step gives an empty range, that
  is no batch at all.
\<close>

definition scrape_comments_for_post_ids ::
  "comment_scraper \<Rightarrow> (string \<times> post_outcome) list \<Rightarrow> int \<Rightarrow>
   py_error + comment_scraper \<times> effect list" where
  "scrape_comments_for_post_ids s post_ids batch_size =
    (if post_ids = [] then Inr (s, [])
     else if batch_size = 0 then Inl ValueError
     else
       (let batches = (if batch_size < 0 then [] else batches_of (nat batch_size) post_ids);
            (s1, completed_batches, es) =
               foldl (process_batch (length batches)) (s, 0, []) batches
        in Inr (s1, es)))"

subsection \<open>\<^verbatim>\<open>retry_failed_posts\<close>\<close>

text \<open>
  \<^verbatim>\<open>list(self.failed_post_ids)\<close> lists a set in an order Python does not fix; \<open>listing\<close> is
  that function. \<open>fetch retry post_id\<close> is the outcome of the \<^verbatim>\<open>try\<close> body for the post in
  round \<open>retry\<close>, and \<open>rnd retry\<close> the random draw of the sleep after the round.

  The rounds of the \<^verbatim>\<open>for retry in range(max_retries)\<close> loop, on the scraper, the ids still
  to retry and the effects so far. The delays are scaled for the time of the round and
  put back in the \<^verbatim>\<open>finally\<close> clause, also when the scrape raises.
\<close>

fun retry_rounds ::
  "(string set \<Rightarrow> string list) \<Rightarrow> (nat \<Rightarrow> string \<Rightarrow> post_outcome) \<Rightarrow> (nat \<Rightarrow> real) \<Rightarrow>
   int \<Rightarrow> nat list \<Rightarrow> comment_scraper \<times> string list \<times> effect list \<Rightarrow>
   py_error + comment_scraper \<times> string list \<times> effect list" where
  "retry_rounds listing fetch rnd batch_size [] st = Inr st"
| "retry_rounds listing fetch rnd batch_size (retry # rest) (s, post_ids_to_retry, es) =
    (if post_ids_to_retry = [] then Inr (s, post_ids_to_retry, es)
     else
       (let old_min_delay = min_delay s;
            old_max_delay = max_delay s;
            s1 = s\<lparr>min_delay := min_delay s * (real retry + 1.5),
                   max_delay := max_delay s * (real retry + 1.5)\<rparr>
        in case scrape_comments_for_post_ids s1
                  (map (\<lambda>post_id. (post_id, fetch retry post_id)) post_ids_to_retry)
                  batch_size of
             Inl e \<Rightarrow> Inl e
           | Inr (s2, es2) \<Rightarrow>
               (let still_failed = listing (failed_post_ids s2);
                    s3 = s2\<lparr>failed_post_ids := {}, min_delay := old_min_delay,
                            max_delay := old_max_delay\<rparr>
                in if still_failed = [] then Inr (s3, still_failed, es @ es2)
                   else retry_rounds listing fetch rnd batch_size rest
                          (s3, still_failed,
                           es @ es2 @ [Sleep (uniform 5 15 (rnd retry))]))))"

definition retry_failed_posts ::
  "(string set \<Rightarrow> string list) \<Rightarrow> (nat \<Rightarrow> string \<Rightarrow> post_outcome) \<Rightarrow> (nat \<Rightarrow> real) \<Rightarrow>
   comment_scraper \<Rightarrow> int \<Rightarrow> int \<Rightarrow> py_error + comment_scraper \<times> effect list" where
  "retry_failed_posts listing fetch rnd s max_retries_arg batch_size =
    (if failed_post_ids s = {} then Inr (s, [])
     else
       (case retry_rounds listing fetch rnd batch_size [0..<nat max_retries_arg]
               (s\<lparr>failed_post_ids := {}\<rparr>, listing (failed_post_ids s), []) of
          Inl e \<Rightarrow> Inl e
        | Inr (s1, post_ids_to_retry, es) \<Rightarrow>
            Inr (s1\<lparr>failed_post_ids := failed_post_ids s1 \<union> set post_ids_to_retry\<rparr>,
                 es @ [SaveProgress])))"

section \<open>sdk/account\_manager.py and sdk/proxy\_manager.py\<close>

text \<open>
  \<^verbatim>\<open>Account\<close> and \<^verbatim>\<open>ProxyInfo\<close> carry the same two usage fields and the same \<^verbatim>\<open>mark_used\<close>;
  both records extend \<open>usage\<close>. The selections sort on the pair
  \<^verbatim>\<open>(x.last_used, x.task_count)\<close>.
\<close>

record usage =
  last_used :: real
  task_count :: int

definition mark_used :: "real \<Rightarrow> 'a usage_scheme \<Rightarrow> 'a usage_scheme" where
  "mark_used now u = u\<lparr>last_used := now, task_count := task_count u + 1\<rparr>"

definition usage_key :: "'a usage_scheme \<Rightarrow> real \<times> int" where
  "usage_key u = (last_used u, task_count u)"

subsection \<open>\<^verbatim>\<open>AccountManager.get_accounts_for_concurrent_tasks\<close>\<close>

text \<open>
  The credentials and the login state of an \<^verbatim>\<open>Account\<close> are not read by the manager; the
  record keeps the platform and the user name. \<^verbatim>\<open>AccountManager.accounts\<close> is a dictionary
  from platform names to lists of accounts.
\<close>

record account = usage +
  platform :: string
  account_name :: string

definition Account :: "string \<Rightarrow> string \<Rightarrow> account" where
  "Account p name = \<lparr>last_used = 0, task_count = 0, platform = p, account_name = name\<rparr>"

type_synonym account_manager = "string \<rightharpoonup> account list"

text \<open>
  The accounts handed out are references into the platform's list: the result lists the
  positions in that list, after the in-place sort, in the order of the slots. The \<open>k\<close>-th
  \<^verbatim>\<open>random.choice\<close> returns the element at position \<open>choice k mod length\<close>, for a sequence
  \<open>choice\<close> of draws.

  The \<^verbatim>\<open>while\<close> loop appends one slot per round until there are \<^verbatim>\<open>count\<close> of them.
\<close>

function reuse_accounts ::
  "real \<Rightarrow> (nat \<Rightarrow> nat) \<Rightarrow> int \<Rightarrow> nat \<Rightarrow> account list \<times> nat list \<Rightarrow> account list \<times> nat list" where
  "reuse_accounts now choice count k (accs, available) =
    (if int (length available) < count then
       (let i = choice k mod length accs
        in reuse_accounts now choice count (Suc k)
             (accs[i := mark_used now (accs ! i)], available @ [i]))
     else (accs, available))"
  by pat_completeness auto
termination
  by (relation "measure (\<lambda>(now, choice, count, k, accs, available).
        nat (count - int (length available)))") auto

definition get_accounts_for_concurrent_tasks ::
  "real \<Rightarrow> (nat \<Rightarrow> nat) \<Rightarrow> account_manager \<Rightarrow> string \<Rightarrow> int \<Rightarrow> nat list \<times> account_manager" where
  "get_accounts_for_concurrent_tasks now choice mgr p count =
    (case mgr p of
       None \<Rightarrow> ([], mgr)
     | Some platform_accounts \<Rightarrow>
         if platform_accounts = [] then ([], mgr)
         else
           (let sorted_accounts = sort_key usage_key platform_accounts;
                first = fold (\<lambda>i (accs, available).
                                (accs[i := mark_used now (accs ! i)], available @ [i]))
                             [0..<min (nat count) (length sorted_accounts)]
                             (sorted_accounts, []);
                (accs, available) = reuse_accounts now choice count 0 first
            in (available, mgr(p \<mapsto> accs))))"

text \<open>
  What the two loops keep true of the accounts \<open>accs\<close> and the slots handed out so far,
  relative to the list \<open>base\<close> the loops started from: every slot is a position of the
  list, an account without a slot is untouched, and an account with slots was last used
  at \<open>now\<close> and has one more task per slot.
\<close>

definition slots_inv :: "real \<Rightarrow> account list \<Rightarrow> account list \<times> nat list \<Rightarrow> bool" where
  "slots_inv now base = (\<lambda>(accs, available).
     length accs = length base \<and>
     (\<forall>i \<in> set available. i < length base) \<and>
     (\<forall>j < length base.
        accs ! j =
          (if j \<in> set available
           then (base ! j)\<lparr>last_used := now,
                            task_count := task_count (base ! j) + int (count_list available j)\<rparr>
           else base ! j)))"

subsection \<open>\<^verbatim>\<open>ProxyManager.get_proxy\<close>\<close>

text \<open>
  \<^verbatim>\<open>IpInfoModel\<close>: the endpoint and its expiry, a Unix time in whole seconds. The user,
  password and protocol are not read by the manager.
\<close>

record ip_info_model =
  ip :: string
  port :: int
  expired_time_ts :: int

record proxy_info = usage +
  ip_info :: ip_info_model
  is_valid :: bool

definition ProxyInfo :: "ip_info_model \<Rightarrow> proxy_info" where
  "ProxyInfo info = \<lparr>last_used = 0, task_count = 0, ip_info = info, is_valid = True\<rparr>"

text \<open>Both read the clock as \<^verbatim>\<open>int(time.time())\<close>.\<close>

definition is_expired :: "real \<Rightarrow> proxy_info \<Rightarrow> bool" where
  "is_expired now p = (\<lfloor>now\<rfloor> \<ge> expired_time_ts (ip_info p))"

definition time_until_expiry :: "real \<Rightarrow> proxy_info \<Rightarrow> int" where
  "time_until_expiry now p = max 0 (expired_time_ts (ip_info p) - \<lfloor>now\<rfloor>)"

record proxy_manager =
  enable_proxy :: bool
  proxies :: "proxy_info list"
  min_pool_size :: int
  proxy_replacement_threshold :: int

definition ProxyManager :: "bool \<Rightarrow> proxy_manager" where
  "ProxyManager enable =
     \<lparr>enable_proxy = enable, proxies = [], min_pool_size = 10,
      proxy_replacement_threshold = 60\<rparr>"

text \<open>
  The provider (\<^verbatim>\<open>kuaidaili_client.get_proxies\<close>) is outside the manager. \<open>provider k n\<close> is
  its answer to request number \<open>k\<close> (counting from 0) for \<open>n\<close> leases: the leases, or
  \<open>None\<close> when the call raises. Beside the manager the functions pass on the list of the
  counts requested so far, one entry per call of the provider.
\<close>

type_synonym provider = "nat \<Rightarrow> int \<Rightarrow> ip_info_model list option"

definition remove_expired_proxies :: "real \<Rightarrow> proxy_manager \<Rightarrow> proxy_manager" where
  "remove_expired_proxies now m = m\<lparr>proxies := filter (\<lambda>p. \<not> is_expired now p) (proxies m)\<rparr>"

definition replenish_pool_if_needed ::
  "provider \<Rightarrow> int option \<Rightarrow> bool \<Rightarrow> proxy_manager \<times> int list \<Rightarrow> proxy_manager \<times> int list" where
  "replenish_pool_if_needed prov needed force = (\<lambda>(m, requested).
     if force \<or> int (length (proxies m)) < min_pool_size m then
       (let count_to_fetch =
              (case needed of
                 Some n \<Rightarrow> n
               | None \<Rightarrow> max (min_pool_size m - int (length (proxies m))) 5)
        in case prov (length requested) count_to_fetch of
             Some new_proxies \<Rightarrow>
               (m\<lparr>proxies := proxies m @ map ProxyInfo new_proxies\<rparr>,
                requested @ [count_to_fetch])
           | None \<Rightarrow> (m, requested @ [count_to_fetch]))
     else (m, requested))"

text \<open>
  The leases of the pool that are not about to expire, as positions in the pool.
\<close>

definition valid_proxies :: "real \<Rightarrow> proxy_manager \<Rightarrow> nat list" where
  "valid_proxies now m =
     filter (\<lambda>i. time_until_expiry now (proxies m ! i) > proxy_replacement_threshold m)
       [0..<length (proxies m)]"

text \<open>
  \<^verbatim>\<open>get_proxy\<close> returns the lease as its position in the pool that the call leaves behind,
  or \<open>None\<close>. In the last resort \<^verbatim>\<open>valid_proxies = self.proxies\<close> makes the two names one
  list, so the sort that follows reorders the pool itself and the lease taken is the one
  at its head; otherwise the sort works on a copy and the pool keeps its order.
\<close>

definition get_proxy ::
  "provider \<Rightarrow> real \<Rightarrow> proxy_manager \<times> int list \<Rightarrow> nat option \<times> proxy_manager \<times> int list" where
  "get_proxy prov now = (\<lambda>(m, requested).
     if \<not> enable_proxy m then (None, m, requested)
     else
       (let (m2, requested2) =
              replenish_pool_if_needed prov None False (remove_expired_proxies now m, requested)
        in if proxies m2 = [] then (None, m2, requested2)
           else
             (let (m3, requested3) =
                    (if valid_proxies now m2 = []
                     then replenish_pool_if_needed prov None True (m2, requested2)
                     else (m2, requested2))
              in if valid_proxies now m3 = [] then
                   (let pool = sort_key usage_key (proxies m3)
                    in (Some 0, m3\<lparr>proxies := pool[0 := mark_used now (pool ! 0)]\<rparr>, requested3))
                 else
                   (let i = hd (sort_key (\<lambda>i. usage_key (proxies m3 ! i)) (valid_proxies now m3))
                    in (Some i,
                        m3\<lparr>proxies := (proxies m3)[i := mark_used now (proxies m3 ! i)]\<rparr>,
                        requested3)))))"

section \<open>Verified properties\<close>

subsection \<open>core.py: what one handled outcome does\<close>

lemma step_exit:
  "get_note_comments s x = (s1, es) \<Longrightarrow>
   list_ex is_exit es \<longleftrightarrow> (x = OtherException True \<and> 6 \<le> getattr0 (block_count s) + 1)"
  by (cases x)
     (auto simp: on_network_error_def on_other_exception_def Let_def split: if_splits option.splits)

lemma step_exit_result:
  "6 \<le> getattr0 (block_count s) + 1 \<Longrightarrow>
   get_note_comments s (OtherException True) =
     (s\<lparr>block_count := Some (getattr0 (block_count s) + 1)\<rparr>, [SysExit 1])"
  by (simp add: on_other_exception_def)

lemma step_count:
  "get_note_comments s x = (s1, es) \<Longrightarrow>
   getattr0 (block_count s1) =
     getattr0 (block_count s) + (if x = OtherException True then 1 else 0)"
  by (cases x)
     (auto simp: on_network_error_def on_other_exception_def Let_def getattr0_def
           split: if_splits option.splits)

lemma step_no_save:
  "get_note_comments s x = (s1, es) \<Longrightarrow> SaveProgress \<notin> set es"
  by (cases x)
     (auto simp: on_network_error_def on_other_exception_def Let_def split: if_splits option.splits)

lemma blocks_Cons: "blocks (x # xs) = (if x = OtherException True then 1 else 0) + blocks xs"
  by (simp add: blocks_def)

lemma blocks_Nil: "blocks [] = 0"
  by (simp add: blocks_def)

subsection \<open>core.py: a whole run\<close>

lemma run_no_save:
  "batch_get_notes_comments s xs = (s', es, n) \<Longrightarrow> SaveProgress \<notin> set es"
proof (induction xs arbitrary: s s' es n)
  case Nil
  then show ?case by simp
next
  case (Cons x xs)
  obtain s1 es1 where st: "get_note_comments s x = (s1, es1)"
    by (cases "get_note_comments s x")
  obtain s2 es2 m where r: "batch_get_notes_comments s1 xs = (s2, es2, m)"
    by (cases "batch_get_notes_comments s1 xs")
  from Cons.prems st r have "es = es1 \<or> es = es1 @ es2"
    by (auto split: if_splits)
  with step_no_save[OF st] Cons.IH[OF r] show ?case by auto
qed

text \<open>
  With \<open>c < 6\<close> block events counted so far, a run leaves through \<^verbatim>\<open>sys.exit(1)\<close> exactly
  when its outcomes bring the count to 6, and it does so at the outcome that is the
  sixth block event.
\<close>

lemma run_blocks:
  "batch_get_notes_comments s xs = (s', es, n) \<Longrightarrow> getattr0 (block_count s) < 6 \<Longrightarrow>
   (if 6 \<le> getattr0 (block_count s) + int (blocks xs)
    then es \<noteq> [] \<and> last es = SysExit 1 \<and> 0 < n \<and> n \<le> length xs \<and>
         xs ! (n - 1) = OtherException True \<and>
         getattr0 (block_count s) + int (blocks (take n xs)) = 6 \<and> block_count s' = Some 6
    else \<not> list_ex is_exit es \<and> n = length xs \<and>
         getattr0 (block_count s') = getattr0 (block_count s) + int (blocks xs))"
proof (induction xs arbitrary: s s' es n)
  case Nil
  then show ?case by (auto simp: blocks_Nil)
next
  case (Cons x xs)
  obtain s1 es1 where st: "get_note_comments s x = (s1, es1)"
    by (cases "get_note_comments s x")
  obtain s2 es2 m where r: "batch_get_notes_comments s1 xs = (s2, es2, m)"
    by (cases "batch_get_notes_comments s1 xs")
  show ?case
  proof (cases "list_ex is_exit es1")
    case True
    with step_exit[OF st]
    have x: "x = OtherException True" and c: "6 \<le> getattr0 (block_count s) + 1"
      by auto
    from step_exit_result[OF c] st x
    have "s1 = s\<lparr>block_count := Some (getattr0 (block_count s) + 1)\<rparr>" "es1 = [SysExit 1]"
      by auto
    moreover from Cons.prems(1) st True have "s' = s1" "es = es1" "n = 1" by auto
    ultimately show ?thesis using x c Cons.prems(2) by (auto simp: blocks_Cons blocks_Nil)
  next
    case False
    with Cons.prems(1) st r have eq: "s' = s2" "es = es1 @ es2" "n = Suc m" by auto
    from False step_exit[OF st]
    have nx: "\<not> (x = OtherException True \<and> 6 \<le> getattr0 (block_count s) + 1)"
      by simp
    have c1: "getattr0 (block_count s1) =
        getattr0 (block_count s) + (if x = OtherException True then 1 else 0)"
      by (rule step_count[OF st])
    with nx Cons.prems(2) have lt: "getattr0 (block_count s1) < 6" by auto
    note IH = Cons.IH[OF r lt]
    have tot: "getattr0 (block_count s1) + int (blocks xs) =
        getattr0 (block_count s) + int (blocks (x # xs))"
      using c1 by (simp add: blocks_Cons)
    show ?thesis
    proof (cases "6 \<le> getattr0 (block_count s) + int (blocks (x # xs))")
      case True
      with IH tot have A: "es2 \<noteq> []" "last es2 = SysExit 1" "0 < m" "m \<le> length xs"
        "xs ! (m - 1) = OtherException True"
        "getattr0 (block_count s1) + int (blocks (take m xs)) = 6" "block_count s2 = Some 6"
        by auto
      from A(3) have "(x # xs) ! (Suc m - 1) = xs ! (m - 1)" by (cases m) auto
      with A c1 eq True show ?thesis by (auto simp: blocks_Cons)
    next
      case F2: False
      with IH tot have A: "\<not> list_ex is_exit es2" "m = length xs"
        "getattr0 (block_count s2) = getattr0 (block_count s1) + int (blocks xs)" by auto
      with F2 False eq tot show ?thesis by (auto simp: list_ex_iff)
    qed
  qed
qed

text \<open>Nothing after the call that exits has any part in the result.\<close>

lemma run_take:
  "batch_get_notes_comments s xs = (s', es, n) \<Longrightarrow>
   batch_get_notes_comments s (take n xs) = (s', es, n)"
proof (induction xs arbitrary: s s' es n)
  case Nil
  then show ?case by simp
next
  case (Cons x xs)
  obtain s1 es1 where st: "get_note_comments s x = (s1, es1)"
    by (cases "get_note_comments s x")
  obtain s2 es2 m where r: "batch_get_notes_comments s1 xs = (s2, es2, m)"
    by (cases "batch_get_notes_comments s1 xs")
  show ?case
  proof (cases "list_ex is_exit es1")
    case True
    with Cons.prems st show ?thesis by auto
  next
    case False
    with Cons.prems(1) st r have eq: "s' = s2" "es = es1 @ es2" "n = Suc m" by auto
    with Cons.IH[OF r] st False show ?thesis by simp
  qed
qed

text \<open>
  Claim C6, as the code has it. The handler exits when \<^verbatim>\<open>block_count >= 6\<close>, that is
  when the count of block events reaches 6, not when it exceeds 6. For a crawler that
  starts without the attribute: whenever the outcomes of a run contain at least six
  block events, the run ends with \<^verbatim>\<open>sys.exit(1)\<close>; the call that exits is the one
  handling the sixth block event (call number \<open>n\<close>); none of the outcomes after it is
  handled (the result is that of the first \<open>n\<close> outcomes alone); and nowhere in the
  run, so also not before the exit, is progress written.
\<close>

theorem block_ceiling_exit_at_sixth_block:
  assumes "batch_get_notes_comments fresh_crawler xs = (s', es, n)" and "6 \<le> blocks xs"
  shows "es \<noteq> [] \<and> last es = SysExit 1 \<and> SaveProgress \<notin> set es \<and>
         0 < n \<and> n \<le> length xs \<and> xs ! (n - 1) = OtherException True \<and>
         blocks (take n xs) = 6 \<and> block_count s' = Some 6 \<and>
         batch_get_notes_comments fresh_crawler (take n xs) = (s', es, n)"
proof -
  have c0: "getattr0 (block_count fresh_crawler) = 0"
    by (simp add: fresh_crawler_def getattr0_def)
  have "getattr0 (block_count fresh_crawler) < 6"
       "6 \<le> getattr0 (block_count fresh_crawler) + int (blocks xs)"
    using assms(2) c0 by simp_all
  with run_blocks[OF assms(1)] c0
  have "es \<noteq> [] \<and> last es = SysExit 1 \<and> 0 < n \<and> n \<le> length xs \<and>
        xs ! (n - 1) = OtherException True \<and> int (blocks (take n xs)) = 6 \<and>
        block_count s' = Some 6"
    by simp
  with run_no_save[OF assms(1)] run_take[OF assms(1)] show ?thesis by simp
qed

theorem block_ceiling_exit_at_sixth_block_witness:
  "batch_get_notes_comments fresh_crawler
     [OtherException True, Fetched, OtherException True, OtherException True, NetworkError,
      OtherException True, OtherException True, OtherException False, OtherException True,
      Fetched, OtherException True] =
     (\<lparr>timeout_count = Some 1, success_after_timeout = Some 0, block_count = Some 6\<rparr>,
      [Sleep 60, Sleep 60, Sleep 60, Sleep 10, Sleep 60, Sleep 60, Sleep 2, SysExit 1], 9)
   \<and> 6 \<le> blocks [OtherException True, Fetched, OtherException True, OtherException True,
      NetworkError, OtherException True, OtherException True, OtherException False,
      OtherException True, Fetched, OtherException True]
   \<and> blocks (take 9 [OtherException True, Fetched, OtherException True, OtherException True,
      NetworkError, OtherException True, OtherException True, OtherException False,
      OtherException True, Fetched, OtherException True]) = 6"
proof -
  let ?xs = "[OtherException True, Fetched, OtherException True, OtherException True,
      NetworkError, OtherException True, OtherException True, OtherException False,
      OtherException True, Fetched, OtherException True]"
  have r: "batch_get_notes_comments fresh_crawler ?xs =
     (\<lparr>timeout_count = Some 1, success_after_timeout = Some 0, block_count = Some 6\<rparr>,
      [Sleep 60, Sleep 60, Sleep 60, Sleep 10, Sleep 60, Sleep 60, Sleep 2, SysExit 1], 9)"
    by (simp add: fresh_crawler_def on_other_exception_def on_network_error_def getattr0_def)
  have b: "6 \<le> blocks ?xs" by (simp add: blocks_def)
  from block_ceiling_exit_at_sixth_block[OF r b] r b show ?thesis by simp
qed

text \<open>
  Claim C6 as stated fails on six block events in a row: the count does not exceed 6,
  yet the run is over, and the exit comes straight after the fifth one-minute sleep
  with no write of progress before it.
\<close>

theorem block_ceiling_exit_without_flush:
  "batch_get_notes_comments fresh_crawler (replicate 6 (OtherException True)) =
     (\<lparr>timeout_count = None, success_after_timeout = None, block_count = Some 6\<rparr>,
      [Sleep 60, Sleep 60, Sleep 60, Sleep 60, Sleep 60, SysExit 1], 6)
   \<and> SaveProgress \<notin>
       set (fst (snd (batch_get_notes_comments fresh_crawler
                        (replicate 6 (OtherException True)))))
   \<and> \<not> 6 < blocks (replicate 6 (OtherException True))"
  by (simp add: fresh_crawler_def on_other_exception_def getattr0_def numeral_eq_Suc blocks_def)

subsection \<open>core.py: the timeout counter\<close>

lemma step_timeout_inv:
  "timeout_inv s \<Longrightarrow> get_note_comments s x = (s1, es) \<Longrightarrow>
   timeout_inv s1 \<and> Sleep 300 \<notin> set es"
  by (cases x)
     (auto simp: timeout_inv_def on_network_error_def on_other_exception_def Let_def
                 getattr0_def
           split: if_splits option.splits)

text \<open>
  From a crawler without the attributes the counter never gets past 3, whatever the
  outcomes are, so the five-minute sleep is never taken.
\<close>

lemma run_timeout_inv:
  "batch_get_notes_comments s xs = (s', es, n) \<Longrightarrow> timeout_inv s \<Longrightarrow>
   timeout_inv s' \<and> Sleep 300 \<notin> set es"
proof (induction xs arbitrary: s s' es n)
  case Nil
  then show ?case by simp
next
  case (Cons x xs)
  obtain s1 es1 where st: "get_note_comments s x = (s1, es1)"
    by (cases "get_note_comments s x")
  obtain s2 es2 m where r: "batch_get_notes_comments s1 xs = (s2, es2, m)"
    by (cases "batch_get_notes_comments s1 xs")
  note a = step_timeout_inv[OF Cons.prems(2) st]
  then have b: "timeout_inv s2 \<and> Sleep 300 \<notin> set es2" using Cons.IH[OF r] by simp
  from Cons.prems(1) st r have "(s' = s1 \<and> es = es1) \<or> (s' = s2 \<and> es = es1 @ es2)"
    by (auto split: if_splits)
  with a b show ?case by auto
qed

lemma fresh_timeout_inv: "timeout_inv fresh_crawler"
  by (simp add: timeout_inv_def fresh_crawler_def)

text \<open>
  Claim C7 at fifteen network errors in a row on a crawler that starts without the
  attributes. \<^verbatim>\<open>success_after_timeout\<close> is incremented by the error handler itself, so
  from the fourth error on the counter is set back to 0 in every call: after the
  fifteenth error it is 0, it was never 15, and the only sleeps are the short ones.
\<close>

theorem fifteen_timeouts_reset_counter:
  "batch_get_notes_comments fresh_crawler (replicate 15 NetworkError) =
     (\<lparr>timeout_count = Some 0, success_after_timeout = Some 14, block_count = None\<rparr>,
      [Sleep 10, Sleep 20, Sleep 30, Sleep 40, Sleep 10, Sleep 10, Sleep 10, Sleep 10,
       Sleep 10, Sleep 10, Sleep 10, Sleep 10, Sleep 10, Sleep 10, Sleep 10], 15)"
  by (simp add: fresh_crawler_def on_network_error_def getattr0_def numeral_eq_Suc)

subsection \<open>multiaccountweiboscraper.py: \<^verbatim>\<open>rotate_account\<close>\<close>

lemma rotate_account_locked: "account_lock s \<Longrightarrow> rotate_account stamp now s = None"
  by simp

lemma hd_sort_key_in_set: "xs \<noteq> [] \<Longrightarrow> hd (sort_key f xs) \<in> set xs"
proof -
  assume "xs \<noteq> []"
  then have "sort_key f xs \<noteq> []" by (metis length_0_conv length_sort)
  then have "hd (sort_key f xs) \<in> set (sort_key f xs)" by (rule hd_in_set)
  then show ?thesis by simp
qed

lemma hd_sort_key_least:
  assumes "x \<in> set xs"
  shows "f (hd (sort_key f xs)) \<le> f x"
proof -
  have srt: "sorted (map f (sort_key f xs))" by (rule sorted_sort_key)
  from assms have x: "x \<in> set (sort_key f xs)" by simp
  then obtain y ys where ys: "sort_key f xs = y # ys" by (cases "sort_key f xs") auto
  with srt have "\<forall>z \<in> set ys. f y \<le> f z" by simp
  with x ys show ?thesis by auto
qed

text \<open>
  The three ways through the body on a free lock: a selection, the exception, and the
  wait, from which the coroutine does not come back.
\<close>

lemma rotate_account_selects:
  assumes "\<not> account_lock s" and "active_accounts now (accounts s) \<noteq> []"
  shows "\<exists>i s'. rotate_account stamp now s = Some (Inr i, s') \<and>
           i \<in> set (active_accounts now (accounts s)) \<and>
           (\<forall>j \<in> set (active_accounts now (accounts s)).
              selection_key (accounts s ! i) \<le> selection_key (accounts s ! j))"
proof -
  let ?act = "active_accounts now (accounts s)"
  let ?i = "hd (sort_key (\<lambda>i. selection_key (accounts s ! i)) ?act)"
  have "?i \<in> set ?act" using assms(2) by (rule hd_sort_key_in_set)
  moreover have "\<forall>j \<in> set ?act. selection_key (accounts s ! ?i) \<le> selection_key (accounts s ! j)"
    using hd_sort_key_least[of _ ?act "\<lambda>i. selection_key (accounts s ! i)"] by blast
  moreover have "\<exists>s'. rotate_account stamp now s = Some (Inr ?i, s')"
    using assms by (simp add: Let_def)
  ultimately show ?thesis by blast
qed

lemma rotate_account_raises:
  assumes "\<not> account_lock s" and "\<forall>a \<in> set (accounts s). \<not> is_logged_in a"
  shows "rotate_account stamp now s = Some (Inl NoActiveAccounts, s)"
proof -
  have "active_accounts now (accounts s) = []" "cooldown_accounts now (accounts s) = []"
    using assms(2) by (auto simp: active_accounts_def cooldown_accounts_def filter_empty_conv)
  with assms(1) show ?thesis by (simp add: Let_def)
qed

lemma rotate_account_never_returns:
  assumes "\<not> account_lock s" and "active_accounts now (accounts s) = []"
    and "cooldown_accounts now (accounts s) \<noteq> []"
  shows "rotate_account stamp now s = None"
  using assms by (simp add: Let_def)

text \<open>
  Claim C2. Whenever \<^verbatim>\<open>rotate_account\<close> returns an account, the account is one of the
  pool, it is logged in, and its \<^verbatim>\<open>cooldown_until\<close> is not greater than the clock reading
  \<open>now\<close> of the selection, before the call and after it: an account whose cooldown ends in
  the future is never the one returned.
\<close>

theorem rotate_account_not_in_cooldown:
  assumes "rotate_account stamp now s = Some (Inr i, s')"
  shows "i < length (accounts s) \<and> length (accounts s') = length (accounts s) \<and>
         is_logged_in (accounts s ! i) \<and>
         \<not> is_in_cooldown now (accounts s ! i) \<and> \<not> is_in_cooldown now (accounts s' ! i) \<and>
         cooldown_until (accounts s ! i) \<le> now \<and> cooldown_until (accounts s' ! i) \<le> now"
proof -
  from assms have nl: "\<not> account_lock s" by (auto split: if_splits)
  let ?act = "active_accounts now (accounts s)"
  from assms nl have ne: "?act \<noteq> []"
    by (auto simp: Let_def split: if_splits)
  let ?i = "hd (sort_key (\<lambda>i. selection_key (accounts s ! i)) ?act)"
  from assms nl ne have i: "i = ?i"
    and s': "s' = s\<lparr>accounts := (accounts s)[?i := (accounts s ! ?i)
               \<lparr>last_used_time := stamp now,
                request_count := request_count (accounts s ! ?i) + 1\<rparr>]\<rparr>"
    by (auto simp: Let_def)
  have "?i \<in> set ?act" using ne by (rule hd_sort_key_in_set)
  then have "i \<in> set ?act" using i by simp
  then have "i < length (accounts s) \<and> is_logged_in (accounts s ! i) \<and>
             \<not> is_in_cooldown now (accounts s ! i)"
    by (auto simp: active_accounts_def)
  then show ?thesis using s' i by (auto simp: is_in_cooldown_def)
qed

theorem rotate_account_not_in_cooldown_witness:
  "rotate_account (\<lambda>t. t * 1000) 100
     \<lparr>accounts =
        [(WeiboAccount ''a'')\<lparr>is_logged_in := True, error_count := 2, cooldown_until := 50\<rparr>,
         (WeiboAccount ''b'')\<lparr>is_logged_in := True, cooldown_until := 500\<rparr>,
         (WeiboAccount ''c'')\<lparr>is_logged_in := True, error_count := 1, last_used_time := 7\<rparr>,
         (WeiboAccount ''d'')\<lparr>is_logged_in := True, error_count := 1, last_used_time := 3,
                               request_count := 9\<rparr>],
      account_lock = False\<rparr>
   = Some (Inr 3,
     \<lparr>accounts =
        [(WeiboAccount ''a'')\<lparr>is_logged_in := True, error_count := 2, cooldown_until := 50\<rparr>,
         (WeiboAccount ''b'')\<lparr>is_logged_in := True, cooldown_until := 500\<rparr>,
         (WeiboAccount ''c'')\<lparr>is_logged_in := True, error_count := 1, last_used_time := 7\<rparr>,
         (WeiboAccount ''d'')\<lparr>is_logged_in := True, error_count := 1,
                               last_used_time := 100000, request_count := 10\<rparr>],
      account_lock = False\<rparr>)
   \<and> cooldown_until ((WeiboAccount ''d'')\<lparr>is_logged_in := True, error_count := 1,
                         last_used_time := 3, request_count := 9\<rparr>) \<le> 100"
proof -
  let ?s = "\<lparr>accounts =
        [(WeiboAccount ''a'')\<lparr>is_logged_in := True, error_count := 2, cooldown_until := 50\<rparr>,
         (WeiboAccount ''b'')\<lparr>is_logged_in := True, cooldown_until := 500\<rparr>,
         (WeiboAccount ''c'')\<lparr>is_logged_in := True, error_count := 1, last_used_time := 7\<rparr>,
         (WeiboAccount ''d'')\<lparr>is_logged_in := True, error_count := 1, last_used_time := 3,
                               request_count := 9\<rparr>],
      account_lock = False\<rparr>"
  let ?s' = "\<lparr>accounts =
        [(WeiboAccount ''a'')\<lparr>is_logged_in := True, error_count := 2, cooldown_until := 50\<rparr>,
         (WeiboAccount ''b'')\<lparr>is_logged_in := True, cooldown_until := 500\<rparr>,
         (WeiboAccount ''c'')\<lparr>is_logged_in := True, error_count := 1, last_used_time := 7\<rparr>,
         (WeiboAccount ''d'')\<lparr>is_logged_in := True, error_count := 1,
                               last_used_time := 100000, request_count := 10\<rparr>],
      account_lock = False\<rparr>"
  have r: "rotate_account (\<lambda>t. t * 1000) 100 ?s = Some (Inr 3, ?s')"
    by (simp add: WeiboAccount_def active_accounts_def is_in_cooldown_def selection_key_def
          upt_rec[of 0] upt_rec[of 1] upt_rec[of 2] upt_rec[of 3] upt_rec[of 4]
          less_eq_prod_def)
  from rotate_account_not_in_cooldown[OF r] r show ?thesis by simp
qed

text \<open>
  Claim C3 at a pool whose only logged-in account is cooling down until 500, at clock
  reading 100. The coroutine computes a sleep of 401 seconds (the remaining 400 plus the
  one-second buffer) and then calls itself while it still holds \<^verbatim>\<open>account_lock\<close>: the
  call never returns, where a selection made after the sleep on a free lock would return
  the account.
\<close>

theorem rotate_account_wait_deadlocks:
  "rotate_account (\<lambda>t. t * 1000) 100
     \<lparr>accounts = [(WeiboAccount ''b'')\<lparr>is_logged_in := True, cooldown_until := 500\<rparr>],
      account_lock = False\<rparr> = None
   \<and> rotate_wait_time 100 [(WeiboAccount ''b'')\<lparr>is_logged_in := True, cooldown_until := 500\<rparr>]
       = 401
   \<and> rotate_account (\<lambda>t. t * 1000) (100 + 401)
       \<lparr>accounts = [(WeiboAccount ''b'')\<lparr>is_logged_in := True, cooldown_until := 500\<rparr>],
        account_lock = False\<rparr>
     = Some (Inr 0,
         \<lparr>accounts = [(WeiboAccount ''b'')\<lparr>is_logged_in := True, cooldown_until := 500,
                                              last_used_time := 501000, request_count := 1\<rparr>],
          account_lock = False\<rparr>)"
  by (simp add: WeiboAccount_def active_accounts_def cooldown_accounts_def is_in_cooldown_def
        rotate_wait_time_def selection_key_def)

subsection \<open>Retry delays: comment.py and multiaccountweiboscraper.py\<close>

lemma backoff_delay_mono:
  assumes "0 \<le> mn" "k \<le> k'"
  shows "backoff_delay mn mx k \<le> backoff_delay mn mx k'"
proof -
  have "(2::real) ^ k \<le> 2 ^ k'" using assms(2) by (simp add: power_increasing)
  then have "mn * 2 ^ k \<le> mn * 2 ^ k'" using assms(1) by (rule mult_left_mono)
  then show ?thesis by (simp add: backoff_delay_def min_le_iff_disj)
qed

lemma backoff_delay_cap: "backoff_delay mn mx k \<le> mx"
  by (simp add: backoff_delay_def)

lemma backoff_delay_nonneg: "0 \<le> mn \<Longrightarrow> 0 \<le> mx \<Longrightarrow> 0 \<le> backoff_delay mn mx k"
  by (simp add: backoff_delay_def)

lemma jitter_delay_range:
  assumes "0 \<le> mn" "0 \<le> mx" "0 \<le> r" "r \<le> 1"
  shows "backoff_delay mn mx k * (1/2) \<le> jitter_delay (1/2) mn mx k r"
    and "jitter_delay (1/2) mn mx k r \<le> backoff_delay mn mx k * (3/2)"
proof -
  have b: "0 \<le> backoff_delay mn mx k" using assms(1,2) by (rule backoff_delay_nonneg)
  have u: "1/2 \<le> 1 + uniform (- (1/2)) (1/2) r" "1 + uniform (- (1/2)) (1/2) r \<le> 3/2"
    using assms(3,4) by (simp_all add: uniform_def)
  show "backoff_delay mn mx k * (1/2) \<le> jitter_delay (1/2) mn mx k r"
    unfolding jitter_delay_def using u(1) b by (rule mult_left_mono)
  show "jitter_delay (1/2) mn mx k r \<le> backoff_delay mn mx k * (3/2)"
    unfolding jitter_delay_def using u(2) b by (rule mult_left_mono)
qed

lemma jitter_delay_symmetric:
  "jitter_delay j mn mx k (1 - r) - backoff_delay mn mx k =
   - (jitter_delay j mn mx k r - backoff_delay mn mx k)"
  by (simp add: jitter_delay_def uniform_def algebra_simps)

lemma backoff_at_eq: "backoff_at k = retry_delay * 2 ^ k"
  by (induction k) simp_all

lemma backoff_at_mono: "k \<le> k' \<Longrightarrow> backoff_at k \<le> backoff_at k'"
  by (simp add: backoff_at_eq retry_delay_def power_increasing)

lemma sleep_time_range:
  assumes "0 \<le> r" "r \<le> 1"
  shows "backoff_at k \<le> sleep_time (backoff_at k) r"
    and "sleep_time (backoff_at k) r \<le> backoff_at k * (3/2)"
proof -
  have p: "0 \<le> backoff_at k" by (simp add: backoff_at_eq retry_delay_def)
  have lo: "0 \<le> backoff_at k * r" using p assms(1) by simp
  have hi: "backoff_at k * r \<le> backoff_at k * 1" using assms(2) p by (rule mult_left_mono)
  show "backoff_at k \<le> sleep_time (backoff_at k) r"
    using lo by (simp add: sleep_time_def uniform_def)
  show "sleep_time (backoff_at k) r \<le> backoff_at k * (3/2)"
    using hi by (simp add: sleep_time_def uniform_def)
qed

text \<open>
  Claim C5, as the two retry loops have it; \<open>r\<close> is the random draw and \<open>k \<le> k'\<close> are two
  attempts on the same unit.

  In \<^verbatim>\<open>WeiboCommentScraper._fetch_comments_with_retry\<close> (non-negative settings): the delay
  without jitter does not decrease from attempt to attempt and stays under the cap
  \<^verbatim>\<open>max_delay\<close>; the delay with jitter is within 50 percent of it on either side, so
  never above the cap plus half the cap; and the jitter is symmetric: the draws \<open>r\<close> and
  \<open>1 - r\<close> move the delay by the same amount in opposite directions.

  In \<^verbatim>\<open>EnhancedWeiboScraper.batch_get_comments\<close>: the delay without jitter is
  \<^verbatim>\<open>retry_delay\<close> doubled per failed attempt, with no cap, and the jitter only adds: the
  delay lies between the base delay and one and a half times the base delay.
\<close>

theorem retry_delay_monotone_and_bounded:
  assumes "0 \<le> min_d" "0 \<le> max_d" "0 \<le> r" "r \<le> 1" "k \<le> k'"
  shows "backoff_delay min_d max_d k \<le> backoff_delay min_d max_d k' \<and>
         backoff_delay min_d max_d k \<le> max_d \<and>
         backoff_delay min_d max_d k * (1/2) \<le> jitter_delay (1/2) min_d max_d k r \<and>
         jitter_delay (1/2) min_d max_d k r \<le> backoff_delay min_d max_d k * (3/2) \<and>
         jitter_delay (1/2) min_d max_d k r \<le> max_d + max_d * (1/2) \<and>
         jitter_delay (1/2) min_d max_d k (1 - r) - backoff_delay min_d max_d k =
           - (jitter_delay (1/2) min_d max_d k r - backoff_delay min_d max_d k) \<and>
         backoff_at k = retry_delay * 2 ^ k \<and>
         backoff_at k \<le> backoff_at k' \<and>
         backoff_at k \<le> sleep_time (backoff_at k) r \<and>
         sleep_time (backoff_at k) r \<le> backoff_at k * (3/2)"
proof -
  note j = jitter_delay_range[OF assms(1-4), of k]
  have "backoff_delay min_d max_d k * (3/2) \<le> max_d * (3/2)"
    using backoff_delay_cap[of min_d max_d k] by simp
  with j(2) have "jitter_delay (1/2) min_d max_d k r \<le> max_d + max_d * (1/2)"
    by simp
  with j backoff_delay_mono[OF assms(1,5)] backoff_delay_cap[of min_d max_d k]
    jitter_delay_symmetric[of "1/2" min_d max_d k r]
    backoff_at_eq[of k] backoff_at_mono[OF assms(5)] sleep_time_range[OF assms(3,4), of k]
  show ?thesis by simp
qed

theorem retry_delay_monotone_and_bounded_witness:
  "(0::real) \<le> 3 \<and> (0::real) \<le> 12 \<and> (0::real) \<le> 1/4 \<and> (1/4::real) \<le> 1 \<and> (1::nat) \<le> 2 \<and>
   backoff_delay 3 12 1 = 6 \<and> backoff_delay 3 12 2 = 12 \<and>
   backoff_delay 3 12 1 \<le> backoff_delay 3 12 2 \<and>
   jitter_delay (1/2) 3 12 1 (1/4) = 9/2 \<and> jitter_delay (1/2) 3 12 1 (1 - 1/4) = 15/2 \<and>
   backoff_at 1 = 4 \<and> backoff_at 2 = 8 \<and> sleep_time (backoff_at 1) (1/4) = 9/2"
proof -
  have h: "(0::real) \<le> 3" "(0::real) \<le> 12" "(0::real) \<le> 1/4" "(1/4::real) \<le> 1" "(1::nat) \<le> 2"
    by simp_all
  have v: "backoff_delay 3 12 1 = 6" "backoff_delay 3 12 2 = 12"
    "jitter_delay (1/2) 3 12 1 (1/4) = 9/2" "jitter_delay (1/2) 3 12 1 (1 - 1/4) = 15/2"
    "backoff_at 1 = 4" "backoff_at 2 = 8" "sleep_time (backoff_at 1) (1/4) = 9/2"
    by (simp_all add: backoff_delay_def jitter_delay_def uniform_def sleep_time_def
          retry_delay_def numeral_2_eq_2)
  from retry_delay_monotone_and_bounded[OF h]
  have m: "backoff_delay 3 12 1 \<le> backoff_delay 3 12 2" by blast
  from h v m show ?thesis by blast
qed

text \<open>
  Claim C5 as stated fails on the retry loop of \<^verbatim>\<open>batch_get_comments\<close>: at the first
  retry the base delay is 2, the lowest draw gives a delay of 2 and the highest a delay
  of 3. The jitter term ranges over 0 to +50 percent of the base delay, not over
  \<open>\<plusminus>\<close>50 percent.
\<close>

theorem batch_retry_jitter_one_sided:
  "backoff_at 0 = 2 \<and> sleep_time (backoff_at 0) 0 - backoff_at 0 = 0 \<and>
   sleep_time (backoff_at 0) 1 - backoff_at 0 = 1 \<and>
   sleep_time (backoff_at 0) 0 - backoff_at 0 \<noteq> - (sleep_time (backoff_at 0) 1 - backoff_at 0)"
  by (simp add: retry_delay_def sleep_time_def uniform_def)

subsection \<open>multiaccountweiboscraper.py: a blocked request\<close>

text \<open>
  Claim C8, as the code has it. When the message of the failure has \<^verbatim>\<open>412\<close> or \<^verbatim>\<open>403\<close> in it
  (and is not taken for an empty response first), the two handlers leave the account
  with \<^verbatim>\<open>cooldown_until\<close> = \<open>now\<close> + 20 minutes, whatever its error count is, with its
  \<^verbatim>\<open>is_logged_in\<close> flag as it was, and with its error count raised by two (once in each
  handler).
\<close>

theorem blocked_sets_twenty_minute_cooldown:
  assumes "contains ''412'' msg \<or> contains ''403'' msg"
    and "\<not> contains ''Expecting value'' msg"
    and "release_failed with_retry r now retries backoff msg account st = (k, account', st', d)"
  shows "cooldown_until account' = now + 20 * 60 \<and>
         is_logged_in account' = is_logged_in account \<and>
         error_count account' = error_count account + 2"
proof -
  from assms(1) have ne: "msg \<noteq> ''''" by auto
  with assms show ?thesis
    by (auto simp: release_failed_def on_batch_error_def on_attempt_failure_def
                   set_cooldown_def Let_def split: if_splits)
qed

theorem blocked_sets_twenty_minute_cooldown_witness:
  "(contains ''412'' ''HTTP 412'' \<or> contains ''403'' ''HTTP 412'') \<and>
   \<not> contains ''Expecting value'' ''HTTP 412'' \<and>
   release_failed True (1/2) 1000 0 2 ''HTTP 412''
     ((WeiboAccount ''a'')\<lparr>is_logged_in := True, error_count := 3\<rparr>) CommentScrapingStats
   = (1,
      (WeiboAccount ''a'')\<lparr>is_logged_in := True, error_count := 5, cooldown_until := 2200\<rparr>,
      CommentScrapingStats\<lparr>total_posts_processed := 1, failed_posts := 1,
                            rate_limited_posts := 1\<rparr>,
      RetryAfter (5/2) 4)"
proof -
  have c: "contains ''412'' ''HTTP 412'' \<or> contains ''403'' ''HTTP 412''"
    and n: "\<not> contains ''Expecting value'' ''HTTP 412''"
    by simp_all
  have r: "release_failed True (1/2) 1000 0 2 ''HTTP 412''
     ((WeiboAccount ''a'')\<lparr>is_logged_in := True, error_count := 3\<rparr>) CommentScrapingStats
   = (1,
      (WeiboAccount ''a'')\<lparr>is_logged_in := True, error_count := 5, cooldown_until := 2200\<rparr>,
      CommentScrapingStats\<lparr>total_posts_processed := 1, failed_posts := 1,
                            rate_limited_posts := 1\<rparr>,
      RetryAfter (5/2) 4)"
    by (simp add: release_failed_def on_batch_error_def on_attempt_failure_def
          set_cooldown_def add_failure_def WeiboAccount_def CommentScrapingStats_def
          max_retries_def sleep_time_def uniform_def)
  from blocked_sets_twenty_minute_cooldown[OF c n r] c n r show ?thesis by simp
qed

text \<open>
  Claim C8 as stated fails for two accounts that differ in their error count only, 0 and
  10: a blocked request at clock reading 1000 puts both in cooldown until 2200. The
  duration is 20 minutes for both; it does not grow with the error count.
\<close>

theorem blocked_cooldown_is_constant:
  "cooldown_until (fst (snd (release_failed True (1/2) 1000 0 2 ''HTTP 412''
      ((WeiboAccount ''a'')\<lparr>is_logged_in := True, error_count := 0\<rparr>) CommentScrapingStats)))
     - 1000 = 1200
   \<and> cooldown_until (fst (snd (release_failed True (1/2) 1000 0 2 ''HTTP 412''
      ((WeiboAccount ''a'')\<lparr>is_logged_in := True, error_count := 10\<rparr>) CommentScrapingStats)))
     - 1000 = 1200"
  by (simp add: release_failed_def on_batch_error_def on_attempt_failure_def
        set_cooldown_def add_failure_def WeiboAccount_def CommentScrapingStats_def
        max_retries_def)

subsection \<open>comment.py: the progress sets\<close>

lemma process_post_success:
  "success_post_ids s \<subseteq> success_post_ids (process_post s p)"
  "success_post_ids (process_post s p) \<subseteq> insert (fst p) (success_post_ids s)"
proof -
  obtain i out where p: "p = (i, out)" by (cases p)
  show "success_post_ids s \<subseteq> success_post_ids (process_post s p)"
    unfolding p by (cases out) (auto simp: process_post_def Let_def)
  show "success_post_ids (process_post s p) \<subseteq> insert (fst p) (success_post_ids s)"
    unfolding p by (cases out) (auto simp: process_post_def Let_def)
qed

lemma process_post_failed:
  "failed_post_ids s \<subseteq> failed_post_ids (process_post s p)"
  "failed_post_ids (process_post s p) \<subseteq> insert (fst p) (failed_post_ids s)"
proof -
  obtain i out where p: "p = (i, out)" by (cases p)
  show "failed_post_ids s \<subseteq> failed_post_ids (process_post s p)"
    unfolding p by (cases out) (auto simp: process_post_def Let_def)
  show "failed_post_ids (process_post s p) \<subseteq> insert (fst p) (failed_post_ids s)"
    unfolding p by (cases out) (auto simp: process_post_def Let_def)
qed

lemma process_post_covers:
  "fst p \<in> success_post_ids (process_post s p) \<or> fst p \<in> failed_post_ids (process_post s p)"
proof -
  obtain i out where p: "p = (i, out)" by (cases p)
  show ?thesis unfolding p by (cases out) (auto simp: process_post_def Let_def)
qed

lemma process_post_exclusive:
  "fst p \<notin> failed_post_ids s \<Longrightarrow>
   \<not> (fst p \<in> success_post_ids (process_post s p) \<and> fst p \<in> failed_post_ids (process_post s p))"
proof -
  assume nf: "fst p \<notin> failed_post_ids s"
  obtain i out where p: "p = (i, out)" by (cases p)
  show ?thesis using nf unfolding p by (cases out) (auto simp: process_post_def Let_def)
qed

lemma foldl_success_lower:
  "success_post_ids s \<subseteq> success_post_ids (foldl process_post s ps)"
proof (induction ps arbitrary: s)
  case Nil
  show ?case by simp
next
  case (Cons p ps)
  have "success_post_ids s \<subseteq> success_post_ids (process_post s p)"
    by (rule process_post_success)
  also have "\<dots> \<subseteq> success_post_ids (foldl process_post (process_post s p) ps)"
    by (rule Cons.IH)
  finally show ?case by simp
qed

lemma foldl_failed_lower:
  "failed_post_ids s \<subseteq> failed_post_ids (foldl process_post s ps)"
proof (induction ps arbitrary: s)
  case Nil
  show ?case by simp
next
  case (Cons p ps)
  have "failed_post_ids s \<subseteq> failed_post_ids (process_post s p)"
    by (rule process_post_failed)
  also have "\<dots> \<subseteq> failed_post_ids (foldl process_post (process_post s p) ps)"
    by (rule Cons.IH)
  finally show ?case by simp
qed

lemma foldl_success_upper:
  "success_post_ids (foldl process_post s ps) \<subseteq> success_post_ids s \<union> fst ` set ps"
proof (induction ps arbitrary: s)
  case Nil
  show ?case by simp
next
  case (Cons p ps)
  have "success_post_ids (foldl process_post (process_post s p) ps)
          \<subseteq> success_post_ids (process_post s p) \<union> fst ` set ps"
    by (rule Cons.IH)
  also have "\<dots> \<subseteq> insert (fst p) (success_post_ids s) \<union> fst ` set ps"
    using process_post_success(2)[of s p] by blast
  finally show ?case by auto
qed

lemma foldl_failed_upper:
  "failed_post_ids (foldl process_post s ps) \<subseteq> failed_post_ids s \<union> fst ` set ps"
proof (induction ps arbitrary: s)
  case Nil
  show ?case by simp
next
  case (Cons p ps)
  have "failed_post_ids (foldl process_post (process_post s p) ps)
          \<subseteq> failed_post_ids (process_post s p) \<union> fst ` set ps"
    by (rule Cons.IH)
  also have "\<dots> \<subseteq> insert (fst p) (failed_post_ids s) \<union> fst ` set ps"
    using process_post_failed(2)[of s p] by blast
  finally show ?case by auto
qed

lemma foldl_process_post_covers:
  "x \<in> fst ` set ps \<Longrightarrow>
   x \<in> success_post_ids (foldl process_post s ps) \<or> x \<in> failed_post_ids (foldl process_post s ps)"
proof (induction ps arbitrary: s)
  case Nil
  then show ?case by simp
next
  case (Cons p ps)
  let ?s1 = "process_post s p"
  show ?case
  proof (cases "x \<in> fst ` set ps")
    case True
    from Cons.IH[OF True, of ?s1] show ?thesis by simp
  next
    case False
    with Cons.prems have x: "x = fst p" by auto
    from process_post_covers[of p s] x
    have "x \<in> success_post_ids ?s1 \<or> x \<in> failed_post_ids ?s1" by simp
    with foldl_success_lower[of ?s1 ps] foldl_failed_lower[of ?s1 ps]
    show ?thesis by auto
  qed
qed

lemma disjoint_after_step:
  "F1 \<subseteq> insert i F \<Longrightarrow> F \<inter> A = {} \<Longrightarrow> i \<notin> A \<Longrightarrow> F1 \<inter> A = {}"
  by auto

lemma not_both_after_rest:
  "S' \<subseteq> S1 \<union> A \<Longrightarrow> F' \<subseteq> F1 \<union> A \<Longrightarrow> x \<notin> A \<Longrightarrow>
   \<not> (x \<in> S1 \<and> x \<in> F1) \<Longrightarrow> \<not> (x \<in> S' \<and> x \<in> F')"
  by auto

lemma foldl_process_post_exclusive:
  "distinct (map fst ps) \<Longrightarrow> failed_post_ids s \<inter> fst ` set ps = {} \<Longrightarrow>
   x \<in> fst ` set ps \<Longrightarrow>
   \<not> (x \<in> success_post_ids (foldl process_post s ps) \<and> x \<in> failed_post_ids (foldl process_post s ps))"
proof (induction ps arbitrary: s)
  case Nil
  then show ?case by simp
next
  case (Cons p ps)
  let ?s1 = "process_post s p"
  let ?s' = "foldl process_post ?s1 ps"
  from Cons.prems(1) have d: "distinct (map fst ps)" and ni: "fst p \<notin> fst ` set ps" by auto
  from Cons.prems(2) have nf: "fst p \<notin> failed_post_ids s"
    and fr: "failed_post_ids s \<inter> fst ` set ps = {}" by auto
  have f1: "failed_post_ids ?s1 \<inter> fst ` set ps = {}"
    by (rule disjoint_after_step[OF process_post_failed(2) fr ni])
  show ?case
  proof (cases "x \<in> fst ` set ps")
    case True
    from Cons.IH[OF d f1 True] show ?thesis by simp
  next
    case False
    with Cons.prems(3) have x: "x = fst p" by auto
    have ex1: "\<not> (x \<in> success_post_ids ?s1 \<and> x \<in> failed_post_ids ?s1)"
      unfolding x by (rule process_post_exclusive[OF nf])
    have "\<not> (x \<in> success_post_ids ?s' \<and> x \<in> failed_post_ids ?s')"
      by (rule not_both_after_rest[OF foldl_success_upper foldl_failed_upper False ex1])
    then show ?thesis by simp
  qed
qed

lemma concat_batches_of: "0 < n \<Longrightarrow> concat (batches_of n xs) = xs"
proof (induction n xs rule: batches_of.induct)
  case (1 n xs)
  show ?case
  proof (cases "xs = []")
    case True
    then show ?thesis by (subst batches_of.simps) simp
  next
    case False
    with 1 have "concat (batches_of n (drop n xs)) = drop n xs" by simp
    with False "1.prems" show ?thesis
      by (subst batches_of.simps) simp
  qed
qed

lemma foldl_process_batch:
  "foldl (process_batch t) (s, c, es) bs = (s', c', es') \<Longrightarrow> s' = foldl process_post s (concat bs)"
proof (induction bs arbitrary: s c es)
  case Nil
  then show ?case by simp
next
  case (Cons b bs)
  let ?es1 = "es @ (if (c + 1) mod 5 = 0 \<or> c + 1 = t then [SaveProgress] else [])"
  have st: "process_batch t (s, c, es) b = (foldl process_post s b, c + 1, ?es1)"
    by (simp add: process_batch_def Let_def)
  from Cons.prems have "foldl (process_batch t) (foldl process_post s b, c + 1, ?es1) bs = (s', c', es')"
    unfolding foldl_Cons st .
  from Cons.IH[OF this] show ?case by simp
qed

lemma scrape_eq:
  assumes "0 < batch_size" and "scrape_comments_for_post_ids s posts batch_size = Inr (s', es)"
  shows "s' = foldl process_post s posts"
proof (cases "posts = []")
  case True
  with assms show ?thesis by (simp add: scrape_comments_for_post_ids_def)
next
  case False
  let ?bs = "batches_of (nat batch_size) posts"
  obtain s1 c1 es1 where f: "foldl (process_batch (length ?bs)) (s, 0, []) ?bs = (s1, c1, es1)"
    by (cases "foldl (process_batch (length ?bs)) (s, 0, []) ?bs")
  have "scrape_comments_for_post_ids s posts batch_size = Inr (s1, es1)"
    using assms(1) False f by (simp add: scrape_comments_for_post_ids_def)
  with assms(2) have "s' = s1" by simp
  moreover from foldl_process_batch[OF f] have "s1 = foldl process_post s (concat ?bs)" .
  moreover have "concat ?bs = posts" using assms(1) by (intro concat_batches_of) simp
  ultimately show ?thesis by (simp only:)
qed

text \<open>
  Where the sets are kept apart: a call with a positive batch size, on distinct post ids
  none of which is in \<^verbatim>\<open>failed_post_ids\<close> when the call starts, leaves every submitted id
  in exactly one of the two sets.
\<close>

lemma scrape_exactly_one:
  assumes "0 < batch_size" and "distinct (map fst posts)"
    and "failed_post_ids s \<inter> fst ` set posts = {}"
    and "scrape_comments_for_post_ids s posts batch_size = Inr (s', es)"
    and "x \<in> fst ` set posts"
  shows "(x \<in> success_post_ids s') \<noteq> (x \<in> failed_post_ids s')"
proof -
  have s': "s' = foldl process_post s posts" by (rule scrape_eq[OF assms(1,4)])
  from foldl_process_post_covers[OF assms(5), of s] foldl_process_post_exclusive[OF assms(2,3,5)]
  show ?thesis unfolding s' by blast
qed

text \<open>
  \<^verbatim>\<open>retry_failed_posts\<close> empties \<^verbatim>\<open>failed_post_ids\<close> before each round and puts back, at the
  end, only the ids that failed in the last round. With at least one round, positive
  batch sizes and a listing that lists each finite set without repetition, it leaves no
  id in both sets and drops none; so a scrape that is followed by it leaves every
  submitted id in exactly one set.
\<close>

lemma scrape_round:
  assumes bs: "0 < batch_size" and d: "distinct ids" and f0: "failed_post_ids s = {}"
    and r: "scrape_comments_for_post_ids s (map (\<lambda>i. (i, fetch i)) ids) batch_size = Inr (s2, es2)"
  shows "failed_post_ids s2 \<subseteq> set ids"
    and "failed_post_ids s2 \<inter> success_post_ids s2 = {}"
    and "set ids \<subseteq> success_post_ids s2 \<union> failed_post_ids s2"
    and "success_post_ids s \<subseteq> success_post_ids s2"
proof -
  let ?posts = "map (\<lambda>i. (i, fetch i)) ids"
  have fst_posts: "map fst ?posts = ids" by (simp add: comp_def)
  then have img: "fst ` set ?posts = set ids" by (metis set_map)
  have s2: "s2 = foldl process_post s ?posts" by (rule scrape_eq[OF bs r])
  have up: "failed_post_ids s2 \<subseteq> failed_post_ids s \<union> fst ` set ?posts"
    unfolding s2 by (rule foldl_failed_upper)
  with f0 img show F: "failed_post_ids s2 \<subseteq> set ids" by simp
  have dd: "distinct (map fst ?posts)" using d fst_posts by simp
  have dj: "failed_post_ids s \<inter> fst ` set ?posts = {}" using f0 by simp
  have one: "\<And>x. x \<in> set ids \<Longrightarrow> (x \<in> success_post_ids s2) \<noteq> (x \<in> failed_post_ids s2)"
    using scrape_exactly_one[OF bs dd dj r] img by simp
  from F one show "failed_post_ids s2 \<inter> success_post_ids s2 = {}" by blast
  from one show "set ids \<subseteq> success_post_ids s2 \<union> failed_post_ids s2" by blast
  show "success_post_ids s \<subseteq> success_post_ids s2" unfolding s2 by (rule foldl_success_lower)
qed

lemma retry_rounds_sets:
  assumes lst: "\<And>A. finite A \<Longrightarrow> set (listing A) = A \<and> distinct (listing A)"
    and bs: "0 < batch_size"
  shows "retry_rounds listing fetch rnd batch_size rounds (s, ids, es) = Inr (s', rest, es') \<Longrightarrow>
         failed_post_ids s = {} \<Longrightarrow> distinct ids \<Longrightarrow>
         rounds \<noteq> [] \<or> set ids \<inter> success_post_ids s = {} \<Longrightarrow>
         failed_post_ids s' = {} \<and> set rest \<inter> success_post_ids s' = {} \<and>
         set ids \<subseteq> success_post_ids s' \<union> set rest \<and>
         success_post_ids s \<subseteq> success_post_ids s'"
proof (induction rounds arbitrary: s ids es)
  case Nil
  then show ?case by auto
next
  case (Cons retry rounds)
  show ?case
  proof (cases "ids = []")
    case True
    with Cons.prems show ?thesis by auto
  next
    case False
    let ?s1 = "s\<lparr>min_delay := min_delay s * (real retry + 1.5),
                   max_delay := max_delay s * (real retry + 1.5)\<rparr>"
    let ?posts = "map (\<lambda>post_id. (post_id, fetch retry post_id)) ids"
    obtain s2 es2 where sc: "scrape_comments_for_post_ids ?s1 ?posts batch_size = Inr (s2, es2)"
      using Cons.prems(1) False
      by (cases "scrape_comments_for_post_ids ?s1 ?posts batch_size") (auto simp: Let_def)
    have f1: "failed_post_ids ?s1 = {}" using Cons.prems(2) by simp
    note R = scrape_round[OF bs Cons.prems(3) f1 sc]
    have fin: "finite (failed_post_ids s2)" using R(1) by (rule finite_subset) simp
    let ?still = "listing (failed_post_ids s2)"
    let ?s3 = "s2\<lparr>failed_post_ids := {}, min_delay := min_delay s, max_delay := max_delay s\<rparr>"
    from lst[OF fin] have st: "set ?still = failed_post_ids s2" and ds: "distinct ?still" by simp_all
    have S1: "success_post_ids s \<subseteq> success_post_ids s2" using R(4) by simp
    show ?thesis
    proof (cases "?still = []")
      case True
      with Cons.prems(1) False sc have "s' = ?s3" "rest = []"
        by (simp_all add: Let_def)
      moreover from True st have "failed_post_ids s2 = {}" by simp
      ultimately show ?thesis using R(3) S1 by auto
    next
      case F2: False
      with Cons.prems(1) False sc
      have rec: "retry_rounds listing fetch rnd batch_size rounds
                   (?s3, ?still, es @ es2 @ [Sleep (uniform 5 15 (rnd retry))]) = Inr (s', rest, es')"
        by (simp add: Let_def)
      have dj: "rounds \<noteq> [] \<or> set ?still \<inter> success_post_ids ?s3 = {}"
        using st R(2) by simp
      from Cons.IH[OF rec _ ds dj]
      have IH: "failed_post_ids s' = {}" "set rest \<inter> success_post_ids s' = {}"
        "set ?still \<subseteq> success_post_ids s' \<union> set rest"
        "success_post_ids ?s3 \<subseteq> success_post_ids s'"
        by simp_all
      from IH(4) have S2: "success_post_ids s2 \<subseteq> success_post_ids s'" by simp
      from R(3) st IH(3) S2 have "set ids \<subseteq> success_post_ids s' \<union> set rest" by blast
      with IH(1,2) S1 S2 show ?thesis by blast
    qed
  qed
qed

lemma retry_failed_posts_sets:
  assumes lst: "\<And>A. finite A \<Longrightarrow> set (listing A) = A \<and> distinct (listing A)"
    and bs: "0 < batch_size" and mr: "1 \<le> max_retries_arg"
    and fin: "finite (failed_post_ids s)"
    and r: "retry_failed_posts listing fetch rnd s max_retries_arg batch_size = Inr (s', es)"
  shows "success_post_ids s' \<inter> failed_post_ids s' = {} \<and>
         failed_post_ids s \<subseteq> success_post_ids s' \<union> failed_post_ids s' \<and>
         success_post_ids s \<subseteq> success_post_ids s'"
proof (cases "failed_post_ids s = {}")
  case True
  with r show ?thesis by (simp add: retry_failed_posts_def)
next
  case False
  let ?s0 = "s\<lparr>failed_post_ids := {}\<rparr>"
  let ?ids = "listing (failed_post_ids s)"
  from lst[OF fin] have ids: "set ?ids = failed_post_ids s" and d: "distinct ?ids" by simp_all
  obtain s1 rest es1 where rr: "retry_rounds listing fetch rnd batch_size [0..<nat max_retries_arg]
               (?s0, ?ids, []) = Inr (s1, rest, es1)"
    using r False
    by (cases "retry_rounds listing fetch rnd batch_size [0..<nat max_retries_arg] (?s0, ?ids, [])")
       (auto simp: retry_failed_posts_def)
  with r False have s': "s' = s1\<lparr>failed_post_ids := failed_post_ids s1 \<union> set rest\<rparr>"
    by (simp add: retry_failed_posts_def)
  have ne: "[0..<nat max_retries_arg] \<noteq> [] \<or> set ?ids \<inter> success_post_ids ?s0 = {}"
    using mr by simp
  from retry_rounds_sets[OF lst bs rr _ d ne]
  have A: "failed_post_ids s1 = {}" "set rest \<inter> success_post_ids s1 = {}"
    "set ?ids \<subseteq> success_post_ids s1 \<union> set rest" "success_post_ids ?s0 \<subseteq> success_post_ids s1"
    by simp_all
  with s' ids show ?thesis by auto
qed

lemma scrape_then_retry_exactly_one:
  assumes lst: "\<And>A. finite A \<Longrightarrow> set (listing A) = A \<and> distinct (listing A)"
    and bs: "0 < batch_size" "0 < retry_batch_size" and mr: "1 \<le> max_retries_arg"
    and fin: "finite (failed_post_ids s)"
    and sc: "scrape_comments_for_post_ids s posts batch_size = Inr (s1, es1)"
    and rt: "retry_failed_posts listing fetch rnd s1 max_retries_arg retry_batch_size = Inr (s2, es2)"
    and x: "x \<in> fst ` set posts"
  shows "(x \<in> success_post_ids s2) \<noteq> (x \<in> failed_post_ids s2)"
proof -
  have s1: "s1 = foldl process_post s posts" by (rule scrape_eq[OF bs(1) sc])
  have "failed_post_ids s1 \<subseteq> failed_post_ids s \<union> fst ` set posts"
    unfolding s1 by (rule foldl_failed_upper)
  moreover have "finite (failed_post_ids s \<union> fst ` set posts)" using fin by simp
  ultimately have fin1: "finite (failed_post_ids s1)" by (rule finite_subset)
  have cov: "x \<in> success_post_ids s1 \<or> x \<in> failed_post_ids s1"
    unfolding s1 by (rule foldl_process_post_covers[OF x])
  from retry_failed_posts_sets[OF lst bs(2) mr fin1 rt] cov show ?thesis by blast
qed

text \<open>
  Claim C1 on a post that fails in one call of \<^verbatim>\<open>scrape_comments_for_post_ids\<close> and is
  submitted again, to the same scraper, in the next. The first call records the id as
  failed. The second call fetches its comments and records it as succeeded, and nothing
  takes it out of \<^verbatim>\<open>failed_post_ids\<close>: the progress saved at the end of that call has the
  id in both sets.
\<close>

theorem resubmitted_post_in_both_sets:
  "scrape_comments_for_post_ids WeiboCommentScraper [(''42'', Raised ''HTTP 412'')] 50 =
     Inr (WeiboCommentScraper
            \<lparr>failed_post_ids := {''42''}, stats := bump ''failed_posts'' 1 (\<lambda>key. 0)\<rparr>,
          [SaveProgress])
   \<and> scrape_comments_for_post_ids
       (WeiboCommentScraper
          \<lparr>failed_post_ids := {''42''}, stats := bump ''failed_posts'' 1 (\<lambda>key. 0)\<rparr>)
       [(''42'', Comments 3)] 50 =
     Inr (WeiboCommentScraper
            \<lparr>success_post_ids := {''42''}, failed_post_ids := {''42''},
             stats := bump ''successful_posts'' 1
                        (bump ''total_comments_scraped'' 3
                           (bump ''total_posts_processed'' 1
                              (bump ''failed_posts'' 1 (\<lambda>key. 0))))\<rparr>,
          [SaveProgress])"
  by (simp add: scrape_comments_for_post_ids_def process_batch_def process_post_def
        WeiboCommentScraper_def Let_def
        batches_of.simps[of 50 "[x]" for x] batches_of.simps[of 50 "[]"])

subsection \<open>sdk/account\_manager.py: \<^verbatim>\<open>get_accounts_for_concurrent_tasks\<close>\<close>

lemma slots_inv_step:
  assumes "slots_inv now base (accs, available)" and "i < length base"
  shows "slots_inv now base (accs[i := mark_used now (accs ! i)], available @ [i])"
proof -
  from assms(1) have len: "length accs = length base"
    and bnd: "\<forall>i \<in> set available. i < length base"
    and val: "\<And>j. j < length base \<Longrightarrow> accs ! j =
          (if j \<in> set available
           then (base ! j)\<lparr>last_used := now,
                            task_count := task_count (base ! j) + int (count_list available j)\<rparr>
           else base ! j)"
    by (auto simp: slots_inv_def)
  have "\<And>j. j < length base \<Longrightarrow> (accs[i := mark_used now (accs ! i)]) ! j =
          (if j \<in> set (available @ [i])
           then (base ! j)\<lparr>last_used := now,
                  task_count := task_count (base ! j) + int (count_list (available @ [i]) j)\<rparr>
           else base ! j)"
  proof -
    fix j assume j: "j < length base"
    show "(accs[i := mark_used now (accs ! i)]) ! j =
          (if j \<in> set (available @ [i])
           then (base ! j)\<lparr>last_used := now,
                  task_count := task_count (base ! j) + int (count_list (available @ [i]) j)\<rparr>
           else base ! j)"
    proof (cases "j = i")
      case True
      show ?thesis
      proof (cases "i \<in> set available")
        case T2: True
        with val[OF assms(2)] True len assms(2) show ?thesis
          by (simp add: mark_used_def)
      next
        case False
        then have "count_list available i = 0" by (simp add: count_list_0_iff)
        with val[OF assms(2)] True len assms(2) False show ?thesis
          by (simp add: mark_used_def)
      qed
    next
      case False
      with val[OF j] show ?thesis by simp
    qed
  qed
  with len bnd assms(2) show ?thesis by (simp add: slots_inv_def)
qed

lemma slots_inv_init: "slots_inv now base (base, [])"
  by (simp add: slots_inv_def)

lemma fold_first:
  "m \<le> length base \<Longrightarrow>
   \<exists>accs. fold (\<lambda>i (accs, available). (accs[i := mark_used now (accs ! i)], available @ [i]))
             [0..<m] (base, []) = (accs, [0..<m]) \<and> slots_inv now base (accs, [0..<m])"
proof (induction m)
  case 0
  then show ?case by (simp add: slots_inv_init)
next
  case (Suc m)
  then obtain accs where f: "fold (\<lambda>i (accs, available). (accs[i := mark_used now (accs ! i)], available @ [i]))
             [0..<m] (base, []) = (accs, [0..<m])" and inv: "slots_inv now base (accs, [0..<m])"
    by auto
  from Suc.prems have "m < length base" by simp
  from slots_inv_step[OF inv this] f show ?case by simp
qed

lemma reuse_accounts_inv:
  "slots_inv now base (accs, available) \<Longrightarrow> base \<noteq> [] \<Longrightarrow>
   reuse_accounts now choice count k (accs, available) = (accs', available') \<Longrightarrow>
   slots_inv now base (accs', available') \<and>
   take (length available) available' = available \<and>
   int (length available') = max (int (length available)) count"
proof (induction now choice count k "(accs, available)" arbitrary: accs available
       rule: reuse_accounts.induct)
  case (1 now choice count k accs available)
  show ?case
  proof (cases "int (length available) < count")
    case True
    let ?i = "choice k mod length accs"
    from "1.prems"(1) have len: "length accs = length base" by (simp add: slots_inv_def)
    with "1.prems"(2) have i: "?i < length base" by simp
    have inv': "slots_inv now base (accs[?i := mark_used now (accs ! ?i)], available @ [?i])"
      by (rule slots_inv_step[OF "1.prems"(1) i])
    from "1.prems"(3) True
    have r: "reuse_accounts now choice count (Suc k)
               (accs[?i := mark_used now (accs ! ?i)], available @ [?i]) = (accs', available')"
      by (simp add: Let_def)
    from "1.hyps"[OF True refl inv' "1.prems"(2) r]
    have A: "slots_inv now base (accs', available')"
      "take (length (available @ [?i])) available' = available @ [?i]"
      "int (length available') = max (int (length (available @ [?i]))) count"
      by auto
    from A(2) have "take (length available) (take (length (available @ [?i])) available') = available"
      by simp
    then have "take (length available) available' = available"
      by (simp add: min_def)
    with A True show ?thesis by auto
  next
    case False
    with "1.prems"(3) have "accs' = accs" "available' = available" by simp_all
    with "1.prems"(1) False show ?thesis by auto
  qed
qed

text \<open>
  Claim C10. For a requested count of at least 1: a platform that is not registered, or
  has an empty list, yields the empty list and leaves the manager as it is. Otherwise the
  result has exactly \<open>count\<close> slots, each a position in the platform's list (which keeps
  its length); the first slots are the accounts in sorted order, one each, and the rest
  reuse accounts of the same list; every account handed out has \<^verbatim>\<open>last_used\<close> set to the
  clock reading and \<^verbatim>\<open>task_count\<close> raised by one for each slot it fills, and the other
  accounts keep their count.
\<close>

theorem concurrent_accounts_slots:
  assumes "1 \<le> count"
    and "get_accounts_for_concurrent_tasks now choice mgr p count = (available, mgr')"
  shows "case mgr p of
           None \<Rightarrow> available = [] \<and> mgr' = mgr
         | Some platform_accounts \<Rightarrow>
             if platform_accounts = [] then available = [] \<and> mgr' = mgr
             else (\<exists>accs. mgr' = mgr(p \<mapsto> accs) \<and>
                    length accs = length platform_accounts \<and>
                    length available = nat count \<and>
                    (\<forall>i \<in> set available. i < length accs \<and> last_used (accs ! i) = now) \<and>
                    (\<forall>j < length accs.
                       task_count (accs ! j) =
                         task_count (sort_key usage_key platform_accounts ! j) +
                         int (count_list available j)) \<and>
                    take (min (nat count) (length platform_accounts)) available =
                      [0..<min (nat count) (length platform_accounts)])"
proof (cases "mgr p")
  case None
  with assms(2) show ?thesis by (simp add: get_accounts_for_concurrent_tasks_def)
next
  case (Some pa)
  show ?thesis
  proof (cases "pa = []")
    case True
    with Some assms(2) show ?thesis by (simp add: get_accounts_for_concurrent_tasks_def)
  next
    case False
    let ?base = "sort_key usage_key pa"
    let ?m = "min (nat count) (length ?base)"
    have ne: "?base \<noteq> []" using False by (metis length_0_conv length_sort)
    obtain accs1 where f: "fold (\<lambda>i (accs, available). (accs[i := mark_used now (accs ! i)], available @ [i]))
             [0..<?m] (?base, []) = (accs1, [0..<?m])" and inv1: "slots_inv now ?base (accs1, [0..<?m])"
      using fold_first[of ?m ?base now] by auto
    obtain accs2 av2 where r: "reuse_accounts now choice count 0 (accs1, [0..<?m]) = (accs2, av2)"
      by (cases "reuse_accounts now choice count 0 (accs1, [0..<?m])")
    from assms(2) Some False f r have res: "available = av2" "mgr' = mgr(p \<mapsto> accs2)"
      by (simp_all add: get_accounts_for_concurrent_tasks_def Let_def)
    from reuse_accounts_inv[OF inv1 ne r]
    have inv2: "slots_inv now ?base (accs2, av2)"
      and pre: "take ?m av2 = [0..<?m]"
      and len: "int (length av2) = max (int ?m) count"
      by simp_all
    from len assms(1) have l: "length av2 = nat count" by auto
    from inv2 have A: "length accs2 = length pa"
      "\<forall>i \<in> set av2. i < length accs2"
      "\<And>j. j < length pa \<Longrightarrow> accs2 ! j =
          (if j \<in> set av2
           then (?base ! j)\<lparr>last_used := now,
                            task_count := task_count (?base ! j) + int (count_list av2 j)\<rparr>
           else ?base ! j)"
      by (auto simp: slots_inv_def)
    have B: "\<forall>i \<in> set av2. last_used (accs2 ! i) = now"
      using A by auto
    have C: "\<forall>j < length accs2. task_count (accs2 ! j) = task_count (?base ! j) + int (count_list av2 j)"
      using A by (auto simp: count_list_0_iff)
    from A(1,2) B C l pre have
      "mgr(p \<mapsto> accs2) = mgr(p \<mapsto> accs2) \<and> length accs2 = length pa \<and> length av2 = nat count \<and>
       (\<forall>i \<in> set av2. i < length accs2 \<and> last_used (accs2 ! i) = now) \<and>
       (\<forall>j < length accs2. task_count (accs2 ! j) = task_count (?base ! j) + int (count_list av2 j)) \<and>
       take (min (nat count) (length pa)) av2 = [0..<min (nat count) (length pa)]"
      by simp
    then have "\<exists>accs. mgr' = mgr(p \<mapsto> accs) \<and> length accs = length pa \<and> length available = nat count \<and>
       (\<forall>i \<in> set available. i < length accs \<and> last_used (accs ! i) = now) \<and>
       (\<forall>j < length accs. task_count (accs ! j) = task_count (?base ! j) + int (count_list available j)) \<and>
       take (min (nat count) (length pa)) available = [0..<min (nat count) (length pa)]"
      unfolding res by (rule exI[of _ accs2])
    with Some False show ?thesis by simp
  qed
qed

theorem concurrent_accounts_slots_witness:
  "(1::int) \<le> 4 \<and>
   get_accounts_for_concurrent_tasks 100 (\<lambda>k. k + 1)
     [''weibo'' \<mapsto> [(Account ''weibo'' ''a'')\<lparr>last_used := 5\<rparr>, Account ''weibo'' ''b'']]
     ''weibo'' 4
   = ([0, 1, 1, 0],
      [''weibo'' \<mapsto> [(Account ''weibo'' ''b'')\<lparr>last_used := 100, task_count := 2\<rparr>,
                      (Account ''weibo'' ''a'')\<lparr>last_used := 100, task_count := 2\<rparr>]]) \<and>
   get_accounts_for_concurrent_tasks 100 (\<lambda>k. k + 1) Map.empty ''weibo'' 4 = ([], Map.empty)"
proof -
  have h: "(1::int) \<le> 4" by simp
  have w1: "get_accounts_for_concurrent_tasks 100 (\<lambda>k. k + 1)
     [''weibo'' \<mapsto> [(Account ''weibo'' ''a'')\<lparr>last_used := 5\<rparr>, Account ''weibo'' ''b'']]
     ''weibo'' 4
   = ([0, 1, 1, 0],
      [''weibo'' \<mapsto> [(Account ''weibo'' ''b'')\<lparr>last_used := 100, task_count := 2\<rparr>,
                      (Account ''weibo'' ''a'')\<lparr>last_used := 100, task_count := 2\<rparr>]])"
    by (simp add: get_accounts_for_concurrent_tasks_def Account_def usage_key_def mark_used_def
          less_eq_prod_def upt_rec[of 0] upt_rec[of 1] upt_rec[of 2] Let_def)
  have w2: "get_accounts_for_concurrent_tasks 100 (\<lambda>k. k + 1) Map.empty ''weibo'' 4
            = ([], Map.empty)"
    by (simp add: get_accounts_for_concurrent_tasks_def)
  from concurrent_accounts_slots[OF h w1] concurrent_accounts_slots[OF h w2] h w1 w2
  show ?thesis by blast
qed

subsection \<open>sdk/proxy\_manager.py: \<^verbatim>\<open>get_proxy\<close>\<close>

lemma purge_unexpired:
  "\<forall>p \<in> set (proxies (remove_expired_proxies now m)). \<not> is_expired now p"
  by (simp add: remove_expired_proxies_def)

lemma replenish_unexpired:
  assumes "\<And>k n ls l. prov k n = Some ls \<Longrightarrow> l \<in> set ls \<Longrightarrow> now < of_int (expired_time_ts l)"
    and "\<forall>p \<in> set (proxies m). \<not> is_expired now p"
    and "replenish_pool_if_needed prov needed force (m, requested) = (m', requested')"
  shows "\<forall>p \<in> set (proxies m'). \<not> is_expired now p"
proof (cases "force \<or> int (length (proxies m)) < min_pool_size m")
  case False
  with assms(2,3) show ?thesis by (auto simp: replenish_pool_if_needed_def)
next
  case True
  let ?c = "case needed of Some n \<Rightarrow> n | None \<Rightarrow> max (min_pool_size m - int (length (proxies m))) 5"
  show ?thesis
  proof (cases "prov (length requested) ?c")
    case None
    with True assms(2,3) show ?thesis by (auto simp: replenish_pool_if_needed_def Let_def)
  next
    case (Some ls)
    with True assms(3) have m': "proxies m' = proxies m @ map ProxyInfo ls"
      by (auto simp: replenish_pool_if_needed_def Let_def)
    have "\<forall>l \<in> set ls. \<not> is_expired now (ProxyInfo l)"
      using assms(1)[OF Some] by (auto simp: is_expired_def ProxyInfo_def not_le floor_less_iff)
    with assms(2) m' show ?thesis by auto
  qed
qed

lemma replenish_grows:
  "replenish_pool_if_needed prov needed force (m, requested) = (m', requested') \<Longrightarrow>
   length (proxies m) \<le> length (proxies m') \<and> enable_proxy m' = enable_proxy m"
  by (auto simp: replenish_pool_if_needed_def Let_def split: if_splits option.splits)

lemma is_expired_mark_used: "is_expired now (mark_used t p) = is_expired now p"
  by (simp add: is_expired_def mark_used_def)

text \<open>
  Claim C4, as the code has it. The call first drops every lease of the pool with
  \<^verbatim>\<open>int(time.time()) >= expired_time_ts\<close>; what it adds afterwards comes from the provider
  unchecked. So: if every lease the provider hands out expires after \<open>now\<close>, then the
  lease that \<^verbatim>\<open>get_proxy\<close> returns expires after \<open>now\<close>, and no lease of the pool the call
  leaves behind is expired.
\<close>

theorem get_proxy_lease_unexpired:
  assumes "get_proxy prov now (m, requested) = (Some i, m', requested')"
    and fresh: "\<And>k n ls l. prov k n = Some ls \<Longrightarrow> l \<in> set ls \<Longrightarrow> now < of_int (expired_time_ts l)"
  shows "i < length (proxies m') \<and>
         now < of_int (expired_time_ts (ip_info (proxies m' ! i))) \<and>
         (\<forall>p \<in> set (proxies m'). \<not> is_expired now p)"
proof -
  from assms(1) have en: "enable_proxy m" by (auto simp: get_proxy_def split: if_splits)
  obtain m2 rq2 where r2: "replenish_pool_if_needed prov None False (remove_expired_proxies now m, requested) = (m2, rq2)"
    by (cases "replenish_pool_if_needed prov None False (remove_expired_proxies now m, requested)")
  have ok2: "\<forall>p \<in> set (proxies m2). \<not> is_expired now p"
    by (rule replenish_unexpired[OF fresh purge_unexpired r2])
  from assms(1) en r2 have ne2: "proxies m2 \<noteq> []"
    by (auto simp: get_proxy_def split: if_splits)
  obtain m3 rq3 where r3: "(if valid_proxies now m2 = []
                     then replenish_pool_if_needed prov None True (m2, rq2)
                     else (m2, rq2)) = (m3, rq3)"
    by (cases "(if valid_proxies now m2 = []
                     then replenish_pool_if_needed prov None True (m2, rq2)
                     else (m2, rq2))")
  have ok3: "\<forall>p \<in> set (proxies m3). \<not> is_expired now p"
  proof (cases "valid_proxies now m2 = []")
    case True
    with r3 have "replenish_pool_if_needed prov None True (m2, rq2) = (m3, rq3)" by simp
    from replenish_unexpired[OF fresh ok2 this] show ?thesis .
  next
    case False
    with r3 ok2 show ?thesis by simp
  qed
  have ne3: "proxies m3 \<noteq> []"
  proof (cases "valid_proxies now m2 = []")
    case True
    with r3 have "replenish_pool_if_needed prov None True (m2, rq2) = (m3, rq3)" by simp
    from replenish_grows[OF this] ne2 show ?thesis by auto
  next
    case False
    with r3 ne2 show ?thesis by simp
  qed
  have res: "(Some i, m', requested') =
     (if valid_proxies now m3 = [] then
        (let pool = sort_key usage_key (proxies m3)
         in (Some 0, m3\<lparr>proxies := pool[0 := mark_used now (pool ! 0)]\<rparr>, rq3))
      else
        (let i = hd (sort_key (\<lambda>i. usage_key (proxies m3 ! i)) (valid_proxies now m3))
         in (Some i, m3\<lparr>proxies := (proxies m3)[i := mark_used now (proxies m3 ! i)]\<rparr>, rq3)))"
    using assms(1) en r2 ne2 r3 by (simp add: get_proxy_def)
  have main: "i < length (proxies m') \<and> (\<forall>p \<in> set (proxies m'). \<not> is_expired now p)"
  proof (cases "valid_proxies now m3 = []")
    case True
    let ?pool = "sort_key usage_key (proxies m3)"
    from res True have i: "i = 0" and m': "proxies m' = ?pool[0 := mark_used now (?pool ! 0)]"
      by (simp_all add: Let_def)
    have okp: "\<forall>p \<in> set ?pool. \<not> is_expired now p" using ok3 by simp
    have "0 < length ?pool" using ne3 by simp
    then have "?pool ! 0 \<in> set ?pool" by (rule nth_mem)
    with okp have "\<not> is_expired now (mark_used now (?pool ! 0))"
      unfolding is_expired_mark_used by blast
    with okp have "\<forall>p \<in> set (?pool[0 := mark_used now (?pool ! 0)]). \<not> is_expired now p"
      using set_update_subset_insert by fastforce
    with i m' ne3 show ?thesis by simp
  next
    case False
    let ?i = "hd (sort_key (\<lambda>i. usage_key (proxies m3 ! i)) (valid_proxies now m3))"
    from res False have i: "i = ?i" and m': "proxies m' = (proxies m3)[?i := mark_used now (proxies m3 ! ?i)]"
      by (simp_all add: Let_def)
    have "?i \<in> set (valid_proxies now m3)" using False
      by (metis hd_in_set length_0_conv length_sort set_sort)
    then have lt: "?i < length (proxies m3)" by (simp add: valid_proxies_def)
    then have "\<not> is_expired now (mark_used now (proxies m3 ! ?i))"
      using ok3 by (simp add: is_expired_mark_used)
    with ok3 have "\<forall>p \<in> set ((proxies m3)[?i := mark_used now (proxies m3 ! ?i)]). \<not> is_expired now p"
      using set_update_subset_insert by fastforce
    with i m' lt show ?thesis by simp
  qed
  then have "\<not> is_expired now (proxies m' ! i)" by simp
  then have "now < of_int (expired_time_ts (ip_info (proxies m' ! i)))"
    by (simp add: is_expired_def not_le floor_less_iff)
  with main show ?thesis by simp
qed

theorem get_proxy_lease_unexpired_witness:
  "get_proxy
     (\<lambda>k n. Some [\<lparr>ip = ''10.0.0.2'', port = 8080, expired_time_ts = 130\<rparr>,
                   \<lparr>ip = ''10.0.0.3'', port = 8080, expired_time_ts = 400\<rparr>])
     (201/2)
     (\<lparr>enable_proxy = True,
       proxies = [ProxyInfo \<lparr>ip = ''10.0.0.9'', port = 8080, expired_time_ts = 100\<rparr>],
       min_pool_size = 10, proxy_replacement_threshold = 60\<rparr>, [])
   = (Some 1,
      \<lparr>enable_proxy = True,
        proxies =
          [ProxyInfo \<lparr>ip = ''10.0.0.2'', port = 8080, expired_time_ts = 130\<rparr>,
           (ProxyInfo \<lparr>ip = ''10.0.0.3'', port = 8080, expired_time_ts = 400\<rparr>)
             \<lparr>last_used := 201/2, task_count := 1\<rparr>],
        min_pool_size = 10, proxy_replacement_threshold = 60\<rparr>,
      [10])
   \<and> (201/2 :: real) < of_int 130 \<and> (201/2 :: real) < of_int 400"
proof -
  let ?prov = "\<lambda>(k::nat) (n::int).
                 Some [\<lparr>ip = ''10.0.0.2'', port = 8080, expired_time_ts = 130\<rparr>,
                       \<lparr>ip = ''10.0.0.3'', port = 8080, expired_time_ts = 400\<rparr>]"
  have r: "get_proxy ?prov (201/2)
     (\<lparr>enable_proxy = True,
       proxies = [ProxyInfo \<lparr>ip = ''10.0.0.9'', port = 8080, expired_time_ts = 100\<rparr>],
       min_pool_size = 10, proxy_replacement_threshold = 60\<rparr>, [])
   = (Some 1,
      \<lparr>enable_proxy = True,
        proxies =
          [ProxyInfo \<lparr>ip = ''10.0.0.2'', port = 8080, expired_time_ts = 130\<rparr>,
           (ProxyInfo \<lparr>ip = ''10.0.0.3'', port = 8080, expired_time_ts = 400\<rparr>)
             \<lparr>last_used := 201/2, task_count := 1\<rparr>],
        min_pool_size = 10, proxy_replacement_threshold = 60\<rparr>,
      [10])"
    by (simp add: get_proxy_def is_expired_def remove_expired_proxies_def
          replenish_pool_if_needed_def valid_proxies_def time_until_expiry_def ProxyInfo_def
          ProxyManager_def usage_key_def mark_used_def less_eq_prod_def
          upt_rec[of 0] upt_rec[of 1] upt_rec[of 2] upt_rec[of 3] upt_rec[of 4])
  have f: "\<And>k n ls l. ?prov k n = Some ls \<Longrightarrow> l \<in> set ls \<Longrightarrow>
             (201/2 :: real) < of_int (expired_time_ts l)"
    by auto
  have g: "(201/2 :: real) < of_int 130" "(201/2 :: real) < of_int 400" by simp_all
  from get_proxy_lease_unexpired[OF r f] r g show ?thesis by blast
qed

text \<open>
  Claim C4 as stated fails when the provider hands out a lease that is already expired:
  on an empty pool at clock reading 100, with a provider whose lease expired at 50, no
  lease has more than 60 seconds left after either replenishment, the last resort takes
  "any available", and the lease returned is expired.
\<close>

theorem get_proxy_returns_expired_lease:
  "get_proxy (\<lambda>k n. Some [\<lparr>ip = ''10.0.0.1'', port = 8080, expired_time_ts = 50\<rparr>]) 100
     (ProxyManager True, [])
   = (Some 0,
      \<lparr>enable_proxy = True,
        proxies =
          [(ProxyInfo \<lparr>ip = ''10.0.0.1'', port = 8080, expired_time_ts = 50\<rparr>)
             \<lparr>last_used := 100, task_count := 1\<rparr>,
           ProxyInfo \<lparr>ip = ''10.0.0.1'', port = 8080, expired_time_ts = 50\<rparr>],
        min_pool_size = 10, proxy_replacement_threshold = 60\<rparr>,
      [10, 9])
   \<and> is_expired 100
        ((ProxyInfo \<lparr>ip = ''10.0.0.1'', port = 8080, expired_time_ts = 50\<rparr>)
           \<lparr>last_used := 100, task_count := 1\<rparr>)"
  by (simp add: get_proxy_def is_expired_def remove_expired_proxies_def
        replenish_pool_if_needed_def valid_proxies_def time_until_expiry_def ProxyInfo_def
        ProxyManager_def usage_key_def mark_used_def less_eq_prod_def
        upt_rec[of 0] upt_rec[of 1] upt_rec[of 2] upt_rec[of 3] upt_rec[of 4])

lemma valid_proxies_empty_iff:
  "valid_proxies now m = [] \<longleftrightarrow>
   \<not> list_ex (\<lambda>p. proxy_replacement_threshold m < time_until_expiry now p) (proxies m)"
proof -
  have "valid_proxies now m = [] \<longleftrightarrow>
        (\<forall>i < length (proxies m).
           \<not> proxy_replacement_threshold m < time_until_expiry now (proxies m ! i))"
    by (auto simp: valid_proxies_def filter_empty_conv)
  also have "\<dots> \<longleftrightarrow>
        (\<forall>p \<in> set (proxies m). \<not> proxy_replacement_threshold m < time_until_expiry now p)"
    by (simp add: all_set_conv_all_nth)
  finally show ?thesis by (simp add: list_ex_iff)
qed

lemma replenish_requested:
  "replenish_pool_if_needed prov needed True (m, requested) = (m', requested') \<Longrightarrow>
   requested' = requested @ [case needed of Some n \<Rightarrow> n
                             | None \<Rightarrow> max (min_pool_size m - int (length (proxies m))) 5]"
  by (auto simp: replenish_pool_if_needed_def Let_def split: option.splits)

text \<open>
  Claim C9, as the code has it. On an empty pool (with a positive \<^verbatim>\<open>min_pool_size\<close>, 10 by
  default) one call of \<^verbatim>\<open>get_proxy\<close> first asks the provider for
  \<^verbatim>\<open>max(min_pool_size, 5)\<close> leases. That is the only request when the provider raises or
  returns nothing (the call then returns \<^verbatim>\<open>None\<close>), or when one of the leases has more
  than \<^verbatim>\<open>proxy_replacement_threshold\<close> seconds left. When leases come back but all of
  them are about to expire, a second, forced request for
  \<^verbatim>\<open>max(min_pool_size - len(proxies), 5)\<close> follows. Both are awaited inside the call, so
  the list of requests is complete when the call returns.
\<close>

theorem get_proxy_empty_pool_requests:
  assumes "enable_proxy m" "proxies m = []" "0 < min_pool_size m"
    and "get_proxy prov now (m, requested) = (res, m', requested')"
  shows "requested' = requested @
           (case prov (length requested) (max (min_pool_size m) 5) of
              None \<Rightarrow> [max (min_pool_size m) 5]
            | Some ls \<Rightarrow>
                if ls = [] \<or>
                   list_ex (\<lambda>l. proxy_replacement_threshold m < time_until_expiry now (ProxyInfo l)) ls
                then [max (min_pool_size m) 5]
                else [max (min_pool_size m) 5, max (min_pool_size m - int (length ls)) 5])
         \<and> (res = None \<longleftrightarrow> prov (length requested) (max (min_pool_size m) 5) = None \<or>
                            prov (length requested) (max (min_pool_size m) 5) = Some [])"
proof -
  let ?c = "max (min_pool_size m) 5"
  have purge: "remove_expired_proxies now m = m"
    using assms(2) by (simp add: remove_expired_proxies_def)
  have lt: "int (length (proxies m)) < min_pool_size m" using assms(2,3) by simp
  have c1: "max (min_pool_size m - int (length (proxies m))) 5 = ?c" using assms(2) by simp
  show ?thesis
  proof (cases "prov (length requested) ?c")
    case None
    then have r2: "replenish_pool_if_needed prov None False (m, requested) = (m, requested @ [?c])"
      using lt c1 by (simp add: replenish_pool_if_needed_def Let_def)
    with assms(1,2,4) purge None show ?thesis by (auto simp: get_proxy_def)
  next
    case (Some ls)
    let ?m2 = "m\<lparr>proxies := map ProxyInfo ls\<rparr>"
    have r2: "replenish_pool_if_needed prov None False (m, requested) = (?m2, requested @ [?c])"
      using lt c1 Some assms(2) by (simp add: replenish_pool_if_needed_def Let_def)
    show ?thesis
    proof (cases "ls = []")
      case True
      with assms(1,4) purge r2 Some show ?thesis by (auto simp: get_proxy_def)
    next
      case False
      have v: "valid_proxies now ?m2 = [] \<longleftrightarrow>
          \<not> list_ex (\<lambda>l. proxy_replacement_threshold m < time_until_expiry now (ProxyInfo l)) ls"
        by (simp add: valid_proxies_empty_iff list_ex_iff)
      show ?thesis
      proof (cases "valid_proxies now ?m2 = []")
        case V: False
        with assms(1,4) purge r2 False have "requested' = requested @ [?c]" "res \<noteq> None"
          by (auto simp: get_proxy_def Let_def)
        with Some False V v show ?thesis by simp
      next
        case V: True
        obtain m3 rq3 where r3: "replenish_pool_if_needed prov None True (?m2, requested @ [?c]) = (m3, rq3)"
          by (cases "replenish_pool_if_needed prov None True (?m2, requested @ [?c])")
        from replenish_requested[OF r3]
        have rq3: "rq3 = requested @ [?c, max (min_pool_size m - int (length ls)) 5]" by simp
        from assms(1,4) purge r2 False V r3 have "requested' = rq3" "res \<noteq> None"
          by (auto simp: get_proxy_def Let_def split: if_splits)
        with rq3 Some False V v show ?thesis by simp
      qed
    qed
  qed
qed

theorem get_proxy_empty_pool_requests_witness:
  "enable_proxy (ProxyManager True) \<and> proxies (ProxyManager True) = [] \<and>
   0 < min_pool_size (ProxyManager True) \<and>
   get_proxy
     (\<lambda>k n. Some [\<lparr>ip = ''10.0.0.2'', port = 8080, expired_time_ts = 130\<rparr>,
                   \<lparr>ip = ''10.0.0.3'', port = 8080, expired_time_ts = 400\<rparr>])
     100 (ProxyManager True, [])
   = (Some 1,
      \<lparr>enable_proxy = True,
        proxies =
          [ProxyInfo \<lparr>ip = ''10.0.0.2'', port = 8080, expired_time_ts = 130\<rparr>,
           (ProxyInfo \<lparr>ip = ''10.0.0.3'', port = 8080, expired_time_ts = 400\<rparr>)
             \<lparr>last_used := 100, task_count := 1\<rparr>],
        min_pool_size = 10, proxy_replacement_threshold = 60\<rparr>,
      [10])"
proof -
  let ?prov = "\<lambda>(k::nat) (n::int).
                 Some [\<lparr>ip = ''10.0.0.2'', port = 8080, expired_time_ts = 130\<rparr>,
                       \<lparr>ip = ''10.0.0.3'', port = 8080, expired_time_ts = 400\<rparr>]"
  have h: "enable_proxy (ProxyManager True)" "proxies (ProxyManager True) = []"
    "0 < min_pool_size (ProxyManager True)"
    by (simp_all add: ProxyManager_def)
  have r: "get_proxy ?prov 100 (ProxyManager True, [])
   = (Some 1,
      \<lparr>enable_proxy = True,
        proxies =
          [ProxyInfo \<lparr>ip = ''10.0.0.2'', port = 8080, expired_time_ts = 130\<rparr>,
           (ProxyInfo \<lparr>ip = ''10.0.0.3'', port = 8080, expired_time_ts = 400\<rparr>)
             \<lparr>last_used := 100, task_count := 1\<rparr>],
        min_pool_size = 10, proxy_replacement_threshold = 60\<rparr>,
      [10])"
    by (simp add: get_proxy_def is_expired_def remove_expired_proxies_def
          replenish_pool_if_needed_def valid_proxies_def time_until_expiry_def ProxyInfo_def
          ProxyManager_def usage_key_def mark_used_def less_eq_prod_def
          upt_rec[of 0] upt_rec[of 1] upt_rec[of 2] upt_rec[of 3] upt_rec[of 4])
  from get_proxy_empty_pool_requests[OF h r] h r show ?thesis by blast
qed

text \<open>
  Claim C9 as stated fails when the leases the provider returns are all about to expire:
  with two leases that have 30 and 40 seconds left, the call on the empty default pool
  makes two requests, for 10 and then for 8 leases.
\<close>

theorem get_proxy_empty_pool_two_requests:
  "snd (snd (get_proxy
     (\<lambda>k n. Some [\<lparr>ip = ''10.0.0.2'', port = 8080, expired_time_ts = 130\<rparr>,
                   \<lparr>ip = ''10.0.0.3'', port = 8080, expired_time_ts = 140\<rparr>])
     100 (ProxyManager True, []))) = [10, 8]"
  by (simp add: get_proxy_def is_expired_def remove_expired_proxies_def
        replenish_pool_if_needed_def valid_proxies_def time_until_expiry_def ProxyInfo_def
        ProxyManager_def usage_key_def mark_used_def less_eq_prod_def
        upt_rec[of 0] upt_rec[of 1] upt_rec[of 2] upt_rec[of 3] upt_rec[of 4])

end
